theory Spec2Isabelle
  imports Main "HOL-Library.Sublist"
begin

section \<open>Strings\<close>

text \<open>
  A Python \<^verbatim>\<open>str\<close> is modelled as a \<^typ>\<open>string\<close>, one \<^typ>\<open>char\<close> per
  character, the character's code point being the value of the \<^typ>\<open>char\<close>. The model
  therefore covers texts whose characters have code points below 256. On that range
  \<^verbatim>\<open>str.lower()\<close> works character by character: the capital letters are
  \<^verbatim>\<open>A-Z\<close> (65 to 90) and the accented capitals 192 to 222 without the
  multiplication sign 215, and each is moved up by 32. None of these code points has
  the bit of value 32 set, so adding 32 is setting that bit (\<open>b5\<close> below).
\<close>

definition is_upper :: "char \<Rightarrow> bool" where
  "is_upper c =
     (let n = (of_char c :: nat)
      in (65 \<le> n \<and> n \<le> 90) \<or> (192 \<le> n \<and> n \<le> 214) \<or> (216 \<le> n \<and> n \<le> 222))"

fun lower_char :: "char \<Rightarrow> char" where
  "lower_char (Char b0 b1 b2 b3 b4 b5 b6 b7) =
     (if is_upper (Char b0 b1 b2 b3 b4 b5 b6 b7)
      then Char b0 b1 b2 b3 b4 True b6 b7
      else Char b0 b1 b2 b3 b4 b5 b6 b7)"

definition lower :: "string \<Rightarrow> string" where
  "lower s = map lower_char s"

text \<open>
  \<^verbatim>\<open>str.strip()\<close> removes leading and trailing white space. Below 256 the white
  space characters of Python are 9 to 13, 28 to 32, 133 and 160.
\<close>

definition is_space :: "char \<Rightarrow> bool" where
  "is_space c =
     (let n = (of_char c :: nat)
      in (9 \<le> n \<and> n \<le> 13) \<or> (28 \<le> n \<and> n \<le> 32) \<or> n = 133 \<or> n = 160)"

definition strip :: "string \<Rightarrow> string" where
  "strip s = rev (dropWhile is_space (rev (dropWhile is_space s)))"

text \<open>
  \<^verbatim>\<open>s.split(sep)\<close> for a separator of one character: the pieces between the
  separators, in order; a text without separator is its own single piece, and the empty text
  gives one empty piece.
\<close>

fun split_on :: "char \<Rightarrow> string \<Rightarrow> string list" where
  "split_on sep [] = [[]]"
| "split_on sep (c # cs) =
     (if c = sep then [] # split_on sep cs
      else (case split_on sep cs of
              [] \<Rightarrow> [[c]]
            | w # ws \<Rightarrow> (c # w) # ws))"

text \<open>\<^verbatim>\<open>sep.join(pieces)\<close>.\<close>

fun join :: "string \<Rightarrow> string list \<Rightarrow> string" where
  "join sep [] = []"
| "join sep [x] = x"
| "join sep (x # y # ys) = x @ sep @ join sep (y # ys)"

text \<open>\<^verbatim>\<open>str(n)\<close> for an integer: decimal digits, a minus sign when negative.\<close>

fun str_nat :: "nat \<Rightarrow> string" where
  "str_nat n =
     (if n < 10 then [''0123456789'' ! n]
      else str_nat (n div 10) @ [''0123456789'' ! (n mod 10)])"

definition str_int :: "int \<Rightarrow> string" where
  "str_int i = (if i < 0 then CHR ''-'' # str_nat (nat (- i)) else str_nat (nat i))"

section \<open>Python errors\<close>

text \<open>
  The exceptions the modelled code can raise. \<open>ReError\<close> is \<^verbatim>\<open>re.error\<close>.
  \<open>NotModelled\<close> is no Python exception: it marks a regular expression that uses an
  operator the model of \<^verbatim>\<open>re\<close> below does not cover.
\<close>

datatype py_error = ValueError | IndexError | KeyError | TypeError | ReError | NotModelled

section \<open>Column detection\<close>

text \<open>
  \<^verbatim>\<open>list.index(y)\<close>: the position of the first element equal to \<^verbatim>\<open>y\<close>,
  \<^verbatim>\<open>ValueError\<close> when there is none.
\<close>

fun list_index :: "'a list \<Rightarrow> 'a \<Rightarrow> py_error + nat" where
  "list_index [] y = Inl ValueError"
| "list_index (x # xs) y =
     (if x = y then Inr 0
      else (case list_index xs y of Inl e \<Rightarrow> Inl e | Inr i \<Rightarrow> Inr (Suc i)))"

text \<open>\<^verbatim>\<open>xs[i]\<close> for a non-negative index.\<close>

definition getitem :: "'a list \<Rightarrow> nat \<Rightarrow> py_error + 'a" where
  "getitem xs i = (if i < length xs then Inr (xs ! i) else Inl IndexError)"

text \<open>
  \<^verbatim>\<open>
  def detect_column(columns, candidates):
      cols_lower = [c.lower() for c in columns]
      for c in candidates:
          if c in cols_lower:
              return columns[cols_lower.index(c)]
      return None
  \<close>
  The loop over the candidates is \<open>detect_loop\<close>. Only the columns are lower-cased; a
  candidate is compared as it was passed.
\<close>

fun detect_loop :: "string list \<Rightarrow> string list \<Rightarrow> string list \<Rightarrow> py_error + string option" where
  "detect_loop columns cols_lower [] = Inr None"
| "detect_loop columns cols_lower (c # cs) =
     (if c \<in> set cols_lower
      then (case list_index cols_lower c of
              Inl e \<Rightarrow> Inl e
            | Inr i \<Rightarrow> (case getitem columns i of
                          Inl e \<Rightarrow> Inl e
                        | Inr col \<Rightarrow> Inr (Some col)))
      else detect_loop columns cols_lower cs)"

definition detect_column :: "string list \<Rightarrow> string list \<Rightarrow> py_error + string option" where
  "detect_column columns candidates = detect_loop columns (map lower columns) candidates"

text \<open>
  The specification's notion of a match between an alias and a column name: equality up to
  letter case.
\<close>

definition ci_equal :: "string \<Rightarrow> string \<Rightarrow> bool" where
  "ci_equal a c = (lower a = lower c)"

section \<open>Regular expressions\<close>

text \<open>
  \<^verbatim>\<open>re.escape(k)\<close> (Python 3.7 and later) puts a backslash before each of the
  characters \<^verbatim>\<open>()[]{}?*+-|^$\.&~#\<close>, the blank, and the control characters
  tab, line feed, vertical tab, form feed and carriage return (9 to 13); every other character
  is kept as it is.
\<close>

definition backslash :: char where
  "backslash = CHR 0x5C"

definition re_special :: "char \<Rightarrow> bool" where
  "re_special c =
     (c \<in> set ''()[]{}?*+-|^$.&~# '' \<or> c = backslash \<or>
      (9 \<le> (of_char c :: nat) \<and> (of_char c :: nat) \<le> 13))"

definition re_escape :: "string \<Rightarrow> string" where
  "re_escape k = concat (map (\<lambda>c. if re_special c then [backslash, c] else [c]) k)"

text \<open>
  The part of the pattern language of \<^verbatim>\<open>re\<close> that is modelled: a pattern is a list
  of alternatives separated by \<^verbatim>\<open>|\<close>, an alternative is a sequence of items, and an
  item is a literal character or the dot. The parser reads the pattern as
  \<^verbatim>\<open>re.compile\<close> does: a backslash takes the next character with it, and
  followed by a character that is neither an ASCII letter nor a digit it stands for that
  character; a lone backslash at the end and an unopened \<^verbatim>\<open>)\<close> are errors. The
  operators \<^verbatim>\<open>[ { ( * + ? ^ $\<close> and the backslash sequences with a letter or a
  digit are outside the model.
\<close>

datatype re_item = Literal char | AnyChar

definition ascii_alnum :: "char \<Rightarrow> bool" where
  "ascii_alnum c =
     (let n = (of_char c :: nat)
      in (48 \<le> n \<and> n \<le> 57) \<or> (65 \<le> n \<and> n \<le> 90) \<or> (97 \<le> n \<and> n \<le> 122))"

fun add_item :: "re_item \<Rightarrow> py_error + re_item list list \<Rightarrow> py_error + re_item list list" where
  "add_item i (Inl e) = Inl e"
| "add_item i (Inr []) = Inr [[i]]"
| "add_item i (Inr (b # bs)) = Inr ((i # b) # bs)"

fun new_branch :: "py_error + re_item list list \<Rightarrow> py_error + re_item list list" where
  "new_branch (Inl e) = Inl e"
| "new_branch (Inr bs) = Inr ([] # bs)"

fun re_parse :: "string \<Rightarrow> py_error + re_item list list" where
  "re_parse [] = Inr [[]]"
| "re_parse (c # cs) =
     (if c = backslash then
        (case cs of
           [] \<Rightarrow> Inl ReError
         | d # ds \<Rightarrow> if ascii_alnum d then Inl NotModelled
                     else add_item (Literal d) (re_parse ds))
      else if c = CHR ''|'' then new_branch (re_parse cs)
      else if c = CHR ''.'' then add_item AnyChar (re_parse cs)
      else if c = CHR '')'' then Inl ReError
      else if c \<in> set ''[{(*+?^$'' then Inl NotModelled
      else add_item (Literal c) (re_parse cs))"

text \<open>
  Matching with the flag \<^verbatim>\<open>re.IGNORECASE\<close>: a literal matches a character with the
  same lower-case form; the dot matches every character but the line feed.
\<close>

fun item_match :: "re_item \<Rightarrow> char \<Rightarrow> bool" where
  "item_match (Literal c) d = (lower_char d = lower_char c)"
| "item_match AnyChar d = (d \<noteq> CHR 0x0A)"

fun branch_match :: "re_item list \<Rightarrow> string \<Rightarrow> bool" where
  "branch_match [] t = True"
| "branch_match (i # is) [] = False"
| "branch_match (i # is) (d # t) = (item_match i d \<and> branch_match is t)"

definition match_here :: "re_item list list \<Rightarrow> string \<Rightarrow> bool" where
  "match_here bs t = list_ex (\<lambda>b. branch_match b t) bs"

text \<open>\<^verbatim>\<open>pattern.search(t) is not None\<close>: some alternative matches at some position.\<close>

fun re_search :: "re_item list list \<Rightarrow> string \<Rightarrow> bool" where
  "re_search bs [] = match_here bs []"
| "re_search bs (d # t) = (match_here bs (d # t) \<or> re_search bs t)"

section \<open>Cells and text columns\<close>

text \<open>
  A cell of a table is a text, an integer, a floating-point number, a value of another kind
  (a boolean, a date) or missing (\<^verbatim>\<open>NaN\<close>). A floating-point number and a
  value of another kind are given by the text that \<^verbatim>\<open>str\<close> gives them, for
  instance \<^verbatim>\<open>12.0\<close> and \<^verbatim>\<open>True\<close>.

  \<^verbatim>\<open>Series.astype(str)\<close> gives every cell its text. What it gives a missing cell
  depends on the version of pandas and is the parameter \<open>na_text\<close>: before pandas 3 the
  text \<^verbatim>\<open>nan\<close> (\<open>Some ''nan''\<close>), from pandas 3 on the cell stays missing
  (\<open>None\<close>).
\<close>

datatype cell = Text string | Number int | Float string | Other string | Missing

fun astype_str :: "string option \<Rightarrow> cell \<Rightarrow> string option" where
  "astype_str na_text (Text s) = Some s"
| "astype_str na_text (Number i) = Some (str_int i)"
| "astype_str na_text (Float s) = Some s"
| "astype_str na_text (Other s) = Some s"
| "astype_str na_text Missing = na_text"

text \<open>
  The text cell that holds the text of a cell that is not missing; a missing cell is left as
  it is.
\<close>

fun as_text :: "cell \<Rightarrow> cell" where
  "as_text (Text s) = Text s"
| "as_text (Number i) = Text (str_int i)"
| "as_text (Float s) = Text s"
| "as_text (Other s) = Text s"
| "as_text Missing = Missing"

text \<open>
  \<^verbatim>\<open>series.str.contains(pat, case=False, na=False)\<close>: the pattern is compiled once,
  with \<^verbatim>\<open>re.IGNORECASE\<close>; a missing cell gets the value of \<^verbatim>\<open>na\<close>.
\<close>

definition str_contains :: "string \<Rightarrow> string option list \<Rightarrow> py_error + bool list" where
  "str_contains pat series =
     (case re_parse pat of
        Inl e \<Rightarrow> Inl e
      | Inr p \<Rightarrow> Inr (map (\<lambda>x. case x of None \<Rightarrow> False | Some t \<Rightarrow> re_search p t) series))"

section \<open>The keyword mask\<close>

text \<open>
  \<^verbatim>\<open>
  if match_mode == "Any keyword (OR)":
      pattern = "|".join(re.escape(k) for k in keywords)
      mask = descriptions.str.contains(pattern, case=False, na=False)
  else:
      mask = pd.Series(True, index=combined_df.index)
      for k in keywords:
          mask &= descriptions.str.contains(re.escape(k), case=False, na=False)
  \<close>
  The radio button offers the two modes and nothing else.
\<close>

datatype match_mode = Any_keyword | All_keywords

definition series_and :: "bool list \<Rightarrow> bool list \<Rightarrow> bool list" where
  "series_and xs ys = map (\<lambda>(x, y). x \<and> y) (zip xs ys)"

definition any_mask :: "string option list \<Rightarrow> string list \<Rightarrow> py_error + bool list" where
  "any_mask descriptions keywords =
     str_contains (join ''|'' (map re_escape keywords)) descriptions"

fun all_loop :: "bool list \<Rightarrow> string option list \<Rightarrow> string list \<Rightarrow> py_error + bool list" where
  "all_loop mask_now descriptions [] = Inr mask_now"
| "all_loop mask_now descriptions (k # ks) =
     (case str_contains (re_escape k) descriptions of
        Inl e \<Rightarrow> Inl e
      | Inr hits \<Rightarrow> all_loop (series_and mask_now hits) descriptions ks)"

definition all_mask :: "string option list \<Rightarrow> string list \<Rightarrow> py_error + bool list" where
  "all_mask descriptions keywords =
     all_loop (replicate (length descriptions) True) descriptions keywords"

fun keyword_mask :: "match_mode \<Rightarrow> string option list \<Rightarrow> string list \<Rightarrow> py_error + bool list" where
  "keyword_mask Any_keyword descriptions keywords = any_mask descriptions keywords"
| "keyword_mask All_keywords descriptions keywords = all_mask descriptions keywords"

text \<open>The mask of a column of cells: the cells are given their text first (line 131).\<close>

definition column_mask ::
  "string option \<Rightarrow> match_mode \<Rightarrow> cell list \<Rightarrow> string list \<Rightarrow> py_error + bool list" where
  "column_mask na_text mode cells keywords =
     keyword_mask mode (map (astype_str na_text) cells) keywords"

text \<open>
  The specification's notion of a match of a keyword in a text: the keyword occurs in the
  text as a contiguous piece, letter case apart.
\<close>

definition ci_substring :: "string \<Rightarrow> string \<Rightarrow> bool" where
  "ci_substring k t = sublist (lower k) (lower t)"

text \<open>
  The specification's mask: a missing cell matches no keyword; in the mode ANY a row is kept
  when its cell matches at least one keyword, in the mode ALL when it matches every keyword.
\<close>

definition cell_matches :: "string \<Rightarrow> string option \<Rightarrow> bool" where
  "cell_matches k x = (case x of None \<Rightarrow> False | Some t \<Rightarrow> ci_substring k t)"

fun row_matches :: "match_mode \<Rightarrow> string list \<Rightarrow> string option \<Rightarrow> bool" where
  "row_matches Any_keyword ks x = list_ex (\<lambda>k. cell_matches k x) ks"
| "row_matches All_keywords ks x = list_all (\<lambda>k. cell_matches k x) ks"

text \<open>The number of rows a mask keeps (\<^verbatim>\<open>len(filtered)\<close>).\<close>

definition count_true :: "bool list \<Rightarrow> nat" where
  "count_true m = length (filter (\<lambda>b. b) m)"

section \<open>Keyword text\<close>

text \<open>
  \<^verbatim>\<open>keywords = [k.strip() for k in keyword_text.split(",") if k.strip()]\<close>: a piece
  is kept when its stripped form is not empty, and it is kept in its stripped form.
\<close>

definition parse_keywords :: "string \<Rightarrow> string list" where
  "parse_keywords keyword_text =
     map strip (filter (\<lambda>k. strip k \<noteq> []) (split_on (CHR '','') keyword_text))"

section \<open>Tables\<close>

text \<open>
  A table (\<^verbatim>\<open>DataFrame\<close>) has its column names in order and its rows in order,
  each row holding one cell per column.
\<close>

record data_frame =
  df_columns :: "string list"
  df_rows :: "cell list list"

text \<open>The cell of a row under a column name; missing when the row has no such column.\<close>

definition cell_at :: "string list \<Rightarrow> cell list \<Rightarrow> string \<Rightarrow> cell" where
  "cell_at cols row c = (case map_of (zip cols row) c of None \<Rightarrow> Missing | Some v \<Rightarrow> v)"

definition column_cells :: "data_frame \<Rightarrow> string \<Rightarrow> cell list" where
  "column_cells d c = map (\<lambda>r. cell_at (df_columns d) r c) (df_rows d)"

text \<open>
  In a well-formed table the column names are distinct (\<^verbatim>\<open>read_excel\<close> renames
  repeated headers), every row has as many cells as there are columns, and every column is
  one that pandas can hold: a column with an integer in it holds integers only, or holds a
  text or a value of another kind as well. (Integers next to floating-point numbers and
  missing values alone do not occur: pandas holds such a column as floating-point numbers.)
\<close>

definition is_number :: "cell \<Rightarrow> bool" where
  "is_number x = (case x of Number n \<Rightarrow> True | _ \<Rightarrow> False)"

definition is_object :: "cell \<Rightarrow> bool" where
  "is_object x = (case x of Text s \<Rightarrow> True | Other s \<Rightarrow> True | _ \<Rightarrow> False)"

definition column_typed :: "cell list \<Rightarrow> bool" where
  "column_typed cs = (list_all is_number cs \<or> \<not> list_ex is_number cs \<or> list_ex is_object cs)"

definition wf_frame :: "data_frame \<Rightarrow> bool" where
  "wf_frame d =
     (distinct (df_columns d) \<and>
      list_all (\<lambda>r. length r = length (df_columns d)) (df_rows d) \<and>
      list_all (\<lambda>c. column_typed (column_cells d c)) (df_columns d))"

text \<open>
  \<^verbatim>\<open>pd.concat(dfs, ignore_index=True)\<close>, with the defaults
  \<^verbatim>\<open>join="outer"\<close> and \<^verbatim>\<open>sort=False\<close>. The columns of the result are
  collected as pandas does for unsorted indexes: the column lists are walked in order and a
  name is appended when it has not been seen. Every table is then re-indexed to these
  columns, which fills the columns it lacks with missing values, and the rows are stacked.
  With no table at all pandas raises \<^verbatim>\<open>ValueError\<close>.
\<close>

fun unique_append :: "'a list \<Rightarrow> 'a list \<Rightarrow> 'a list" where
  "unique_append seen [] = seen"
| "unique_append seen (x # xs) =
     (if x \<in> set seen then unique_append seen xs else unique_append (seen @ [x]) xs)"

definition union_columns :: "string list list \<Rightarrow> string list" where
  "union_columns css = fold (\<lambda>cs seen. unique_append seen cs) css []"

text \<open>
  The stacked column has one type for all its cells. The type of a column of a table is the
  one \<^verbatim>\<open>read_excel\<close> gives it (line 49): \<^verbatim>\<open>int64\<close> when every cell
  is an integer, \<^verbatim>\<open>float64\<close> when every cell is a floating-point number or
  missing, and \<^verbatim>\<open>object\<close> (here also for booleans and dates) otherwise.
\<close>

datatype dtype = Int64 | Float64 | Object

definition is_float64 :: "cell \<Rightarrow> bool" where
  "is_float64 x = (case x of Float s \<Rightarrow> True | Missing \<Rightarrow> True | _ \<Rightarrow> False)"

definition infer_dtype :: "cell list \<Rightarrow> dtype" where
  "infer_dtype cs =
     (if list_all is_number cs then Int64
      else if list_all is_float64 cs then Float64
      else Object)"

text \<open>
  The stacked column \<open>c\<close> is \<^verbatim>\<open>float64\<close>, and its integers are converted, when
  no table holds it as \<^verbatim>\<open>object\<close> and either some table holds it as
  \<^verbatim>\<open>float64\<close> or some table lacks it (a missing value needs a floating-point
  column). In every other case the cells are kept as they are.
\<close>

definition upcasts :: "data_frame list \<Rightarrow> string \<Rightarrow> bool" where
  "upcasts dfs c =
     (let dtypes = map (\<lambda>d. infer_dtype (column_cells d c))
                       (filter (\<lambda>d. c \<in> set (df_columns d)) dfs)
      in Object \<notin> set dtypes \<and>
         (Float64 \<in> set dtypes \<or> list_ex (\<lambda>d. c \<notin> set (df_columns d)) dfs))"

text \<open>
  The text of the floating-point number nearest to an integer \<open>n\<close>
  (\<^verbatim>\<open>str(float(n))\<close>). Up to \<open>2 ^ 53\<close> in size the integer is kept; from there
  to \<open>2 ^ 54\<close> only the even integers exist as floating-point numbers, and an odd one goes
  to the neighbour that is a multiple of 4. The text is the decimal digits followed by
  \<^verbatim>\<open>.0\<close> as long as the number is below \<open>10 ^ 16\<close>; the exponent form that
  Python uses from there on is not modelled.
\<close>

definition float_text :: "int \<Rightarrow> string option" where
  "float_text n =
     (let a = \<bar>n\<bar>;
          m = (if a \<le> 2 ^ 53 \<or> even a then a
               else if (a + 1) mod 4 = 0 then a + 1 else a - 1)
      in if a < 2 ^ 54 \<and> m < 10 ^ 16
         then Some ((if n < 0 then ''-'' else []) @ str_nat (nat m) @ ''.0'')
         else None)"

fun to_float64 :: "cell \<Rightarrow> cell" where
  "to_float64 (Number n) = (case float_text n of Some s \<Rightarrow> Float s | None \<Rightarrow> Number n)"
| "to_float64 x = x"

definition convertible :: "cell \<Rightarrow> bool" where
  "convertible x = (case x of Number n \<Rightarrow> float_text n \<noteq> None | _ \<Rightarrow> True)"

definition has_number :: "data_frame \<Rightarrow> bool" where
  "has_number d = list_ex (list_ex is_number) (df_rows d)"

text \<open>The row of a table in the stacked table: re-indexed, then converted column by column.\<close>

definition concat_row :: "data_frame list \<Rightarrow> string list \<Rightarrow> string list \<Rightarrow> cell list \<Rightarrow> cell list" where
  "concat_row dfs new_cols cols row =
     map (\<lambda>c. if upcasts dfs c then to_float64 (cell_at cols row c) else cell_at cols row c)
         new_cols"

text \<open>
  Left out of the model (\<open>NotModelled\<close>) are: a table that is not well-formed; an integer
  whose floating-point text is not modelled (all integers of the tables are asked to have
  one, which also keeps them within 64 bits); and a table without rows next to tables with
  integers, where the type of the stacked column depends on the version of pandas.
\<close>

definition modelled_frame :: "data_frame \<Rightarrow> bool" where
  "modelled_frame d = (wf_frame d \<and> list_all (list_all convertible) (df_rows d))"

definition pd_concat :: "data_frame list \<Rightarrow> py_error + data_frame" where
  "pd_concat dfs =
     (if dfs = [] then Inl ValueError
      else if \<not> list_all modelled_frame dfs then Inl NotModelled
      else if list_ex (\<lambda>d. df_rows d = []) dfs \<and> list_ex has_number dfs then Inl NotModelled
      else let cols = union_columns (map df_columns dfs)
           in Inr \<lparr>df_columns = cols,
                   df_rows = concat (map (\<lambda>d. map (concat_row dfs cols (df_columns d))
                                                 (df_rows d)) dfs)\<rparr>)"

text \<open>
  The specification's column order: every column once, at the place of its first appearance
  in the column lists taken one after the other. \<^const>\<open>remdups\<close> keeps the last of equal
  elements, so on the reversed list it keeps the first.
\<close>

definition ordered_union :: "string list list \<Rightarrow> string list" where
  "ordered_union css = rev (remdups (rev (concat css)))"

text \<open>The position in the combined table of row \<open>i\<close> of table \<open>j\<close>.\<close>

definition row_offset :: "data_frame list \<Rightarrow> nat \<Rightarrow> nat" where
  "row_offset dfs j = sum_list (map (\<lambda>d. length (df_rows d)) (take j dfs))"

text \<open>\<^verbatim>\<open>df[c]\<close>: the column of that name, \<^verbatim>\<open>KeyError\<close> when there is none.\<close>

definition get_column :: "data_frame \<Rightarrow> string \<Rightarrow> py_error + cell list" where
  "get_column d c =
     (if c \<in> set (df_columns d) then Inr (map (\<lambda>r. cell_at (df_columns d) r c) (df_rows d))
      else Inl KeyError)"

text \<open>
  \<^verbatim>\<open>df.loc[mask, cols]\<close> for a boolean mask and a list of column names: the rows
  whose mask value is true, and of each the cells under the listed columns. A mask of another
  length and a name that is no column are errors.
\<close>

definition df_loc :: "data_frame \<Rightarrow> bool list \<Rightarrow> string list \<Rightarrow> py_error + data_frame" where
  "df_loc d mask_series cols =
     (if length mask_series \<noteq> length (df_rows d) then Inl IndexError
      else if \<not> list_all (\<lambda>c. c \<in> set (df_columns d)) cols then Inl KeyError
      else Inr \<lparr>df_columns = cols,
                df_rows = map (\<lambda>r. map (cell_at (df_columns d) r) cols)
                              (map fst (filter snd (zip (df_rows d) mask_series)))\<rparr>)"

section \<open>The filter run on a heap of objects\<close>

text \<open>
  Tables and series are objects; a variable holds a reference. The heap is the list of the
  objects made so far, a reference is a position in it, and a new object goes to the end.
  Temporaries that no variable keeps get no place on the heap.
\<close>

datatype obj =
    Frame data_frame
  | TextSeries "string option list"
  | BoolSeries "bool list"
  | Workbook string data_frame

type_synonym heap = "obj list"

definition alloc :: "heap \<Rightarrow> obj \<Rightarrow> heap \<times> nat" where
  "alloc h x = (h @ [x], length h)"

definition frame_at :: "heap \<Rightarrow> nat \<Rightarrow> py_error + data_frame" where
  "frame_at h a =
     (if a < length h then (case h ! a of Frame d \<Rightarrow> Inr d | _ \<Rightarrow> Inl TypeError)
      else Inl TypeError)"

definition texts_at :: "heap \<Rightarrow> nat \<Rightarrow> py_error + string option list" where
  "texts_at h a =
     (if a < length h then (case h ! a of TextSeries ds \<Rightarrow> Inr ds | _ \<Rightarrow> Inl TypeError)
      else Inl TypeError)"

definition bools_at :: "heap \<Rightarrow> nat \<Rightarrow> py_error + bool list" where
  "bools_at h a =
     (if a < length h then (case h ! a of BoolSeries m \<Rightarrow> Inr m | _ \<Rightarrow> Inl TypeError)
      else Inl TypeError)"

text \<open>
  The loop of the mode ALL on the heap: \<^verbatim>\<open>mask &= ...\<close> writes the conjunction into
  the object the variable \<^verbatim>\<open>mask\<close> refers to.
\<close>

fun all_loop_heap :: "heap \<Rightarrow> nat \<Rightarrow> string option list \<Rightarrow> string list \<Rightarrow> py_error option \<times> heap" where
  "all_loop_heap h mask_ref descriptions [] = (None, h)"
| "all_loop_heap h mask_ref descriptions (k # ks) =
     (case str_contains (re_escape k) descriptions of
        Inl e \<Rightarrow> (Some e, h)
      | Inr hits \<Rightarrow>
          (case bools_at h mask_ref of
             Inl e \<Rightarrow> (Some e, h)
           | Inr m \<Rightarrow> all_loop_heap (h[mask_ref := BoolSeries (series_and m hits)])
                        mask_ref descriptions ks))"

text \<open>Lines 133 to 139: the mask object. \<open>n\<close> is the length of the combined table's index.\<close>

definition make_mask ::
  "heap \<Rightarrow> nat \<Rightarrow> nat \<Rightarrow> string list \<Rightarrow> match_mode \<Rightarrow> (py_error + nat) \<times> heap" where
  "make_mask h descriptions n keywords match_mode =
     (case texts_at h descriptions of
        Inl e \<Rightarrow> (Inl e, h)
      | Inr ds \<Rightarrow>
          (case match_mode of
             Any_keyword \<Rightarrow>
               (case any_mask ds keywords of
                  Inl e \<Rightarrow> (Inl e, h)
                | Inr m \<Rightarrow> (let (h1, mask_ref) = alloc h (BoolSeries m) in (Inr mask_ref, h1)))
           | All_keywords \<Rightarrow>
               (let (h1, mask_ref) = alloc h (BoolSeries (replicate n True))
                in (case all_loop_heap h1 mask_ref ds keywords of
                      (Some e, h2) \<Rightarrow> (Inl e, h2)
                    | (None, h2) \<Rightarrow> (Inr mask_ref, h2)))))"

text \<open>
  What a run of the button's handler ends in: a warning and \<^verbatim>\<open>st.stop()\<close>, an
  exception, or the results shown, with the references of \<^verbatim>\<open>filtered\<close> and of the
  exported workbook.
\<close>

datatype outcome = Halted string | Raised py_error | Shown nat nat

text \<open>
  Lines 141 to 152: \<^verbatim>\<open>filtered = combined_df.loc[mask, retain_cols].copy()\<close> makes
  the selection and then its copy; \<^verbatim>\<open>filtered.to_excel(writer, index=False,
  sheet_name="FilteredStories")\<close> makes the workbook of one sheet.
\<close>

definition project_and_export :: "heap \<Rightarrow> nat \<Rightarrow> nat \<Rightarrow> string list \<Rightarrow> outcome \<times> heap" where
  "project_and_export h combined_df mask_ref retain_cols =
     (case frame_at h combined_df of
        Inl e \<Rightarrow> (Raised e, h)
      | Inr df \<Rightarrow>
          (case bools_at h mask_ref of
             Inl e \<Rightarrow> (Raised e, h)
           | Inr m \<Rightarrow>
               (case df_loc df m retain_cols of
                  Inl e \<Rightarrow> (Raised e, h)
                | Inr sel \<Rightarrow>
                    (let (h1, selection) = alloc h (Frame sel);
                         (h2, filtered) = alloc h1 (Frame sel);
                         (h3, output) = alloc h2 (Workbook ''FilteredStories'' sel)
                     in (Shown filtered output, h3)))))"

text \<open>Lines 131 to 159, entered with a keyword list that is not empty.\<close>

definition run_filter ::
  "string option \<Rightarrow> heap \<Rightarrow> nat \<Rightarrow> string \<Rightarrow> string list \<Rightarrow> string list \<Rightarrow> match_mode
     \<Rightarrow> outcome \<times> heap" where
  "run_filter na_text h combined_df desc_col retain_cols keywords match_mode =
     (case frame_at h combined_df of
        Inl e \<Rightarrow> (Raised e, h)
      | Inr df \<Rightarrow>
          (case get_column df desc_col of
             Inl e \<Rightarrow> (Raised e, h)
           | Inr col \<Rightarrow>
               (let (h1, descriptions) = alloc h (TextSeries (map (astype_str na_text) col))
                in (case make_mask h1 descriptions (length (df_rows df)) keywords match_mode of
                      (Inl e, h2) \<Rightarrow> (Raised e, h2)
                    | (Inr mask_ref, h2) \<Rightarrow>
                        project_and_export h2 combined_df mask_ref retain_cols))))"

text \<open>
  Lines 121 to 159, the handler of the button \<^verbatim>\<open>Filter Stories\<close>:
  \<^verbatim>\<open>
  if not keyword_text.strip():
      st.warning("Please enter at least one keyword."); st.stop()
  keywords = [k.strip() for k in keyword_text.split(",") if k.strip()]
  if not keywords:
      st.warning("No valid keywords parsed."); st.stop()
  \<close>
\<close>

definition filter_stories ::
  "string option \<Rightarrow> heap \<Rightarrow> nat \<Rightarrow> string \<Rightarrow> string list \<Rightarrow> string \<Rightarrow> match_mode
     \<Rightarrow> outcome \<times> heap" where
  "filter_stories na_text h combined_df desc_col retain_cols keyword_text match_mode =
     (if strip keyword_text = [] then (Halted ''Please enter at least one keyword.'', h)
      else let keywords = parse_keywords keyword_text
           in if keywords = [] then (Halted ''No valid keywords parsed.'', h)
              else run_filter na_text h combined_df desc_col retain_cols keywords match_mode)"

section \<open>Properties of column detection\<close>

lemma list_index_found:
  "y \<in> set xs \<Longrightarrow>
   \<exists>i. list_index xs y = Inr i \<and> i < length xs \<and> xs ! i = y \<and> (\<forall>j<i. xs ! j \<noteq> y)"
proof (induction xs)
  case Nil
  then show ?case by simp
next
  case (Cons x xs)
  show ?case
  proof (cases "x = y")
    case True
    then show ?thesis by simp
  next
    case False
    with Cons.prems have "y \<in> set xs" by simp
    from Cons.IH [OF this] obtain i where
      i: "list_index xs y = Inr i" "i < length xs" "xs ! i = y" "\<forall>j<i. xs ! j \<noteq> y"
      by blast
    have "\<forall>j<Suc i. (x # xs) ! j \<noteq> y"
      using False i(4) by (simp add: nth_Cons split: nat.splits)
    with False i show ?thesis by simp
  qed
qed

lemma detect_loop_none:
  "\<forall>a\<in>set A. a \<notin> set L \<Longrightarrow> detect_loop C L A = Inr None"
  by (induction A) simp_all

lemma detect_loop_found:
  assumes "length L = length C" and "\<forall>b\<in>set as1. b \<notin> set L" and "a \<in> set L"
  shows "\<exists>i. i < length C \<and> L ! i = a \<and> (\<forall>j<i. L ! j \<noteq> a) \<and>
             detect_loop C L (as1 @ a # as2) = Inr (Some (C ! i))"
  using assms(2)
proof (induction as1)
  case Nil
  from list_index_found [OF assms(3)] obtain i where
    i: "list_index L a = Inr i" "i < length L" "L ! i = a" "\<forall>j<i. L ! j \<noteq> a"
    by blast
  with assms(1,3) show ?case by (auto simp: getitem_def)
next
  case (Cons b bs)
  then show ?case by simp
qed

lemma first_match_split:
  assumes "\<exists>a\<in>set A. P a"
  shows "\<exists>as1 a as2. A = as1 @ a # as2 \<and> P a \<and> (\<forall>b\<in>set as1. \<not> P b)"
  using assms by (metis split_list_first_prop)

lemma detect_loop_total:
  "length L = length C \<Longrightarrow>
   detect_loop C L A = Inr None \<and> (\<forall>a\<in>set A. a \<notin> set L) \<or>
   (\<exists>as1 a as2 i. A = as1 @ a # as2 \<and> (\<forall>b\<in>set as1. b \<notin> set L) \<and>
       i < length C \<and> L ! i = a \<and> (\<forall>j<i. L ! j \<noteq> a) \<and>
       detect_loop C L A = Inr (Some (C ! i)))"
proof (cases "\<exists>a\<in>set A. a \<in> set L")
  case False
  then show ?thesis using detect_loop_none [of A L C] by blast
next
  case True
  assume len: "length L = length C"
  from first_match_split [OF True] obtain as1 a as2 where
    A: "A = as1 @ a # as2" "a \<in> set L" "\<forall>b\<in>set as1. \<not> b \<in> set L" by blast
  from detect_loop_found [OF len A(3) A(2), of as2] A show ?thesis by blast
qed

section \<open>Escaped keywords are read back as literals\<close>

lemma re_parse_nonempty: "re_parse s \<noteq> Inr []"
proof (induction s rule: re_parse.induct)
  case 1
  then show ?case by simp
next
  case (2 c cs)
  have add: "\<And>i r. r \<noteq> Inr [] \<Longrightarrow> add_item i r \<noteq> Inr []"
    by (metis add_item.elims list.distinct(1) sum.inject(2))
  have nb: "\<And>r. new_branch r \<noteq> Inr []"
    by (metis new_branch.elims list.distinct(1) sum.inject(2) sum.distinct(1))
  show ?case
    using 2 add nb by (auto split: list.splits)
qed

lemma special_not_alnum: "re_special c \<Longrightarrow> \<not> ascii_alnum c"
  by (auto simp: re_special_def ascii_alnum_def backslash_def)

lemma plain_not_operator:
  "\<not> re_special c \<Longrightarrow>
   c \<noteq> backslash \<and> c \<noteq> CHR ''|'' \<and> c \<noteq> CHR ''.'' \<and> c \<noteq> CHR '')'' \<and> c \<notin> set ''[{(*+?^$''"
  by (auto simp: re_special_def)

lemma re_parse_escaped_char:
  "re_parse ((if re_special c then [backslash, c] else [c]) @ rest) =
   add_item (Literal c) (re_parse rest)"
  using special_not_alnum [of c] plain_not_operator [of c]
  by (cases "re_special c") simp_all

lemma re_parse_escape:
  "re_parse rest = Inr (b # bs) \<Longrightarrow>
   re_parse (re_escape k @ rest) = Inr ((map Literal k @ b) # bs)"
proof (induction k)
  case Nil
  then show ?case by (simp add: re_escape_def)
next
  case (Cons c k)
  have "re_escape (c # k) @ rest =
        (if re_special c then [backslash, c] else [c]) @ (re_escape k @ rest)"
    by (simp add: re_escape_def)
  then have "re_parse (re_escape (c # k) @ rest) =
             add_item (Literal c) (re_parse (re_escape k @ rest))"
    by (simp only: re_parse_escaped_char)
  with Cons show ?case by simp
qed

lemma re_parse_join:
  "ks \<noteq> [] \<Longrightarrow> re_parse (join ''|'' (map re_escape ks)) = Inr (map (map Literal) ks)"
proof (induction ks rule: induct_list012)
  case 1
  then show ?case by simp
next
  case (2 k)
  have "re_parse (re_escape k @ []) = Inr ((map Literal k @ []) # [])"
    by (rule re_parse_escape) simp
  then show ?case by simp
next
  case (3 k k' ks)
  then have rest: "re_parse (CHR ''|'' # join ''|'' (map re_escape (k' # ks))) =
                   Inr ([] # map (map Literal) (k' # ks))"
    by (simp add: backslash_def)
  show ?case
    using re_parse_escape [OF rest, of k] by simp
qed

lemma branch_match_literal:
  "branch_match (map Literal k) t = prefix (lower k) (lower t)"
proof (induction k arbitrary: t)
  case Nil
  then show ?case by (simp add: lower_def)
next
  case (Cons c k)
  then show ?case by (cases t) (auto simp: lower_def)
qed

lemma match_here_literal:
  "match_here (map (map Literal) ks) t = (\<exists>k\<in>set ks. prefix (lower k) (lower t))"
  by (simp add: match_here_def list_ex_iff branch_match_literal)

lemma re_search_literal:
  "re_search (map (map Literal) ks) t = (\<exists>k\<in>set ks. ci_substring k t)"
proof (induction t)
  case Nil
  then show ?case by (simp add: match_here_literal ci_substring_def lower_def)
next
  case (Cons d t)
  have "\<And>k. ci_substring k (d # t) = (prefix (lower k) (lower (d # t)) \<or> ci_substring k t)"
    by (simp add: ci_substring_def lower_def sublist_Cons_right)
  with Cons show ?case by (auto simp: match_here_literal)
qed

lemma str_contains_escape:
  "str_contains (re_escape k) ds = Inr (map (cell_matches k) ds)"
proof -
  have "re_parse (re_escape k @ []) = Inr ((map Literal k @ []) # [])"
    by (rule re_parse_escape) simp
  then have p: "re_parse (re_escape k) = Inr [map Literal k]" by simp
  have s: "\<And>t. re_search [map Literal k] t = ci_substring k t"
    using re_search_literal [of "[k]"] by simp
  show ?thesis
    unfolding str_contains_def p
    by (auto simp: s cell_matches_def split: option.splits)
qed

lemma any_mask_matches:
  "ks \<noteq> [] \<Longrightarrow> any_mask ds ks = Inr (map (row_matches Any_keyword ks) ds)"
  unfolding any_mask_def str_contains_def
  by (auto simp: re_parse_join re_search_literal cell_matches_def list_ex_iff split: option.splits)

lemma all_loop_matches:
  "length m = length ds \<Longrightarrow>
   all_loop m ds ks = Inr (map (\<lambda>(b, x). b \<and> row_matches All_keywords ks x) (zip m ds))"
proof (induction ks arbitrary: m)
  case Nil
  then show ?case by (simp add: list_eq_iff_nth_eq)
next
  case (Cons k ks)
  have len: "length (series_and m (map (cell_matches k) ds)) = length ds"
    using Cons.prems by (simp add: series_and_def)
  have "all_loop m ds (k # ks) = all_loop (series_and m (map (cell_matches k) ds)) ds ks"
    by (simp add: str_contains_escape)
  also have "\<dots> = Inr (map (\<lambda>(b, x). b \<and> row_matches All_keywords ks x)
                          (zip (series_and m (map (cell_matches k) ds)) ds))"
    by (rule Cons.IH [OF len])
  also have "map (\<lambda>(b, x). b \<and> row_matches All_keywords ks x)
                 (zip (series_and m (map (cell_matches k) ds)) ds) =
             map (\<lambda>(b, x). b \<and> row_matches All_keywords (k # ks) x) (zip m ds)"
    using Cons.prems by (auto simp: list_eq_iff_nth_eq series_and_def)
  finally show ?case .
qed

lemma all_mask_matches:
  "all_mask ds ks = Inr (map (row_matches All_keywords ks) ds)"
  by (simp add: all_mask_def all_loop_matches list_eq_iff_nth_eq)

lemma keyword_mask_matches:
  "mode = Any_keyword \<longrightarrow> ks \<noteq> [] \<Longrightarrow>
   keyword_mask mode ds ks = Inr (map (row_matches mode ks) ds)"
  by (cases mode) (simp_all add: any_mask_matches all_mask_matches)

section \<open>Column detection: what is found, and which column wins\<close>

text \<open>
  Claim C2, as the code has it. \<open>detect_column\<close> never raises. It returns a column exactly
  when some candidate, taken as it was passed, equals the lower-cased name of some column,
  and nothing otherwise; a column it returns is a member of the column list. Only the columns
  are lower-cased, so the comparison ignores letter case in the columns alone. For candidates
  that are already lower-case (as every call in the program passes them) this is the same as
  a match up to letter case between a candidate and a column.
\<close>

theorem detect_column_iff:
  "(\<exists>r. detect_column C A = Inr r) \<and>
   ((\<exists>c. detect_column C A = Inr (Some c)) \<longleftrightarrow> (\<exists>a\<in>set A. \<exists>c\<in>set C. a = lower c)) \<and>
   (detect_column C A = Inr None \<longleftrightarrow> \<not> (\<exists>a\<in>set A. \<exists>c\<in>set C. a = lower c)) \<and>
   (\<forall>c. detect_column C A = Inr (Some c) \<longrightarrow> c \<in> set C) \<and>
   ((\<forall>a\<in>set A. lower a = a) \<longrightarrow>
      ((\<exists>c. detect_column C A = Inr (Some c)) \<longleftrightarrow> (\<exists>a\<in>set A. \<exists>c\<in>set C. ci_equal a c)))"
proof -
  let ?L = "map lower C"
  have len: "length ?L = length C" by simp
  have mem: "\<And>a. a \<in> set ?L \<longleftrightarrow> (\<exists>c\<in>set C. a = lower c)" by auto
  from detect_loop_total [OF len, of A]
  consider
    (none) "detect_column C A = Inr None" "\<forall>a\<in>set A. a \<notin> set ?L"
  | (some) i a where "a \<in> set A" "i < length C" "?L ! i = a" "detect_column C A = Inr (Some (C ! i))"
    unfolding detect_column_def by auto
  then show ?thesis
  proof cases
    case none
    have no: "\<not> (\<exists>a\<in>set A. \<exists>c\<in>set C. a = lower c)"
      using none(2) mem by blast
    have noci: "(\<forall>a\<in>set A. lower a = a) \<longrightarrow> \<not> (\<exists>a\<in>set A. \<exists>c\<in>set C. ci_equal a c)"
      using no by (auto simp: ci_equal_def)
    from none(1) no noci show ?thesis by simp
  next
    case some
    have Ci: "C ! i \<in> set C" using some(2) by simp
    have a: "a = lower (C ! i)" using some(2,3) by simp
    have ex: "\<exists>a\<in>set A. \<exists>c\<in>set C. a = lower c"
      using some(1) Ci a by blast
    have exci: "(\<forall>a\<in>set A. lower a = a) \<longrightarrow> (\<exists>a\<in>set A. \<exists>c\<in>set C. ci_equal a c)"
    proof
      assume "\<forall>a\<in>set A. lower a = a"
      with some(1) have "lower a = a" by blast
      with a have "ci_equal a (C ! i)" by (simp add: ci_equal_def)
      with some(1) Ci show "\<exists>a\<in>set A. \<exists>c\<in>set C. ci_equal a c" by blast
    qed
    from some(4) Ci ex exci show ?thesis by simp
  qed
qed

text \<open>The statement of C2 at two concrete column lists.\<close>

theorem detect_column_iff_witness:
  "detect_column [''Story ID'', ''Description''] [''id'', ''description''] = Inr (Some ''Description'') \<and>
   ''Description'' \<in> set [''Story ID'', ''Description''] \<and>
   ci_equal ''description'' ''Description'' \<and>
   detect_column [''Story ID''] [''id'', ''description''] = Inr None"
proof -
  have "lower ''description'' = ''description''" "lower ''id'' = ''id''"
       "lower ''Description'' = ''description''" "lower ''Story ID'' = ''story id''"
    by (simp_all add: lower_def is_upper_def)
  then show ?thesis
    using detect_column_iff [of "[''Story ID'', ''Description'']" "[''id'', ''description'']"]
      detect_column_iff [of "[''Story ID'']" "[''id'', ''description'']"]
    by (simp add: detect_column_def getitem_def ci_equal_def)
qed

text \<open>
  Claim C2 as stated fails: the candidate \<^verbatim>\<open>ID\<close> and the column \<^verbatim>\<open>Id\<close>
  are equal up to letter case, and nothing is found.
\<close>

theorem detect_column_uppercase_candidate:
  "detect_column [''Id''] [''ID''] = Inr None \<and> ''ID'' \<in> set [''ID''] \<and> ''Id'' \<in> set [''Id''] \<and> ci_equal ''ID'' ''Id''"
  by (simp add: detect_column_def ci_equal_def lower_def is_upper_def)

text \<open>
  Claim C6, as the code has it. When some candidate equals the lower-cased name of some
  column, \<open>detect_column\<close> returns the column of the earliest such candidate: no candidate
  before it equals a lower-cased column name, wherever the columns stand in the column list.
  The column returned is the first one whose lower-cased name is that candidate, and it is
  returned in its original spelling.
\<close>

theorem detect_column_priority:
  assumes "\<exists>a\<in>set A. \<exists>c\<in>set C. a = lower c"
  shows "\<exists>as1 a as2 cs1 c cs2.
           A = as1 @ a # as2 \<and> (\<forall>b\<in>set as1. \<forall>d\<in>set C. b \<noteq> lower d) \<and>
           C = cs1 @ c # cs2 \<and> a = lower c \<and> (\<forall>d\<in>set cs1. a \<noteq> lower d) \<and>
           detect_column C A = Inr (Some c)"
proof -
  let ?L = "map lower C"
  have len: "length ?L = length C" by simp
  from assms have "\<not> (\<forall>a\<in>set A. a \<notin> set ?L)" by auto
  with detect_loop_total [OF len, of A] obtain as1 a as2 i where
    A: "A = as1 @ a # as2" and before: "\<forall>b\<in>set as1. b \<notin> set ?L" and
    i: "i < length C" "?L ! i = a" "\<forall>j<i. ?L ! j \<noteq> a" and
    res: "detect_loop C ?L A = Inr (Some (C ! i))"
    by blast
  have C: "C = take i C @ C ! i # drop (Suc i) C"
    using i(1) by (simp add: id_take_nth_drop)
  have a: "a = lower (C ! i)" using i(1,2) by simp
  have first: "\<forall>d\<in>set (take i C). a \<noteq> lower d"
  proof
    fix d assume "d \<in> set (take i C)"
    then obtain j where "j < i" "d = C ! j"
      using i(1) by (auto simp: in_set_conv_nth)
    with i(1,3) show "a \<noteq> lower d" by auto
  qed
  have "\<forall>b\<in>set as1. \<forall>d\<in>set C. b \<noteq> lower d" using before by auto
  with A C a first res show ?thesis
    unfolding detect_column_def by blast
qed

text \<open>
  The statement of C6 where the second candidate is the first to match and its column is the
  last of the list.
\<close>

theorem detect_column_priority_witness:
  "detect_column [''Notes'', ''Story ID'', ''ID''] [''user story id'', ''id'', ''story id''] = Inr (Some ''ID'')"
  using detect_column_priority [of "[''user story id'', ''id'', ''story id'']" "[''Notes'', ''Story ID'', ''ID'']"]
  by (simp add: detect_column_def getitem_def lower_def is_upper_def)

text \<open>
  Claim C6 as stated fails: the earliest candidate with a match up to letter case is
  \<^verbatim>\<open>ID\<close> (it matches the column \<^verbatim>\<open>id\<close>), and the column of the second
  candidate is returned.
\<close>

theorem detect_column_skips_uppercase_candidate:
  "detect_column [''id'', ''desc''] [''ID'', ''desc''] = Inr (Some ''desc'') \<and> ci_equal ''ID'' ''id''"
  by (simp add: detect_column_def getitem_def ci_equal_def lower_def is_upper_def)

section \<open>The keyword mask: totality, literal matching, monotonicity\<close>

lemma re_parse_empty_join: "re_parse (join ''|'' (map re_escape [])) = Inr [[]]"
  by simp

lemma any_mask_total: "\<exists>m. any_mask ds ks = Inr m \<and> length m = length ds"
proof (cases "ks = []")
  case True
  then show ?thesis by (simp add: any_mask_def str_contains_def)
next
  case False
  then show ?thesis by (simp add: any_mask_matches)
qed

lemma keyword_mask_total: "\<exists>m. keyword_mask mode ds ks = Inr m \<and> length m = length ds"
  by (cases mode) (simp_all add: any_mask_total all_mask_matches)

lemma row_matches_missing: "ks \<noteq> [] \<Longrightarrow> \<not> row_matches mode ks None"
  by (cases mode) (auto simp: cell_matches_def list_ex_iff list_all_iff)

lemma row_matches_text:
  "row_matches mode ks (Some t) =
     (case mode of Any_keyword \<Rightarrow> (\<exists>k\<in>set ks. ci_substring k t)
                 | All_keywords \<Rightarrow> (\<forall>k\<in>set ks. ci_substring k t))"
  by (cases mode) (simp_all add: cell_matches_def list_ex_iff list_all_iff)

lemma count_true_map_mono:
  "(\<And>x. x \<in> set ds \<Longrightarrow> P x \<Longrightarrow> Q x) \<Longrightarrow> count_true (map P ds) \<le> count_true (map Q ds)"
  by (induction ds) (auto simp: count_true_def)

lemma astype_as_text: "astype_str na_text (as_text c) = astype_str na_text c"
  by (cases c) simp_all

text \<open>
  Claim C1, as the code has it. For every column of cells, every keyword list and either
  mode, computing the mask raises nothing and gives one value per row. The cells are given
  their text first (\<^verbatim>\<open>astype(str)\<close>), so a cell that is not a text (an integer,
  a floating-point number, a boolean, a date) is matched on its text like any text cell: the
  mask is the mask of the column in which every such cell is replaced by the text cell
  holding its text, and with a keyword list that is not empty its row is kept exactly when
  that text contains one of the keywords (mode ANY) or each of them (mode ALL). The matching
  itself (lines 133 to 139), on whatever series of texts it is given, raises nothing either
  and, with a keyword list that is not empty, gives false to every entry of that series that
  is missing (\<^verbatim>\<open>na=False\<close>).
\<close>

theorem mask_never_raises:
  "(\<exists>m. column_mask na_text mode cells keywords = Inr m \<and> length m = length cells \<and>
       column_mask na_text mode (map as_text cells) keywords = Inr m \<and>
       (keywords \<noteq> [] \<longrightarrow>
          (\<forall>i<length cells. \<forall>t. as_text (cells ! i) = Text t \<longrightarrow>
             m ! i = (case mode of
                        Any_keyword \<Rightarrow> (\<exists>k\<in>set keywords. ci_substring k t)
                      | All_keywords \<Rightarrow> (\<forall>k\<in>set keywords. ci_substring k t))))) \<and>
   (\<exists>m. keyword_mask mode descriptions keywords = Inr m \<and> length m = length descriptions \<and>
       (keywords \<noteq> [] \<longrightarrow>
          (\<forall>i<length descriptions. descriptions ! i = None \<longrightarrow> \<not> m ! i)))"
proof -
  have series: "\<exists>m. keyword_mask mode descriptions keywords = Inr m \<and>
       length m = length descriptions \<and>
       (keywords \<noteq> [] \<longrightarrow>
          (\<forall>i<length descriptions. descriptions ! i = None \<longrightarrow> \<not> m ! i))"
  proof (cases "keywords = []")
    case True
    with keyword_mask_total [of mode descriptions "keywords"] show ?thesis by auto
  next
    case False
    then have "keyword_mask mode descriptions keywords =
               Inr (map (row_matches mode keywords) descriptions)"
      by (simp add: keyword_mask_matches)
    then show ?thesis
      using row_matches_missing [OF False, of mode] by auto
  qed
  let ?ds = "map (astype_str na_text) cells"
  from keyword_mask_total [of mode ?ds "keywords"] obtain m where
    m: "keyword_mask mode ?ds keywords = Inr m" "length m = length cells" by auto
  have same: "map (astype_str na_text) (map as_text cells) = ?ds"
    by (simp add: astype_as_text)
  have again: "column_mask na_text mode (map as_text cells) keywords = Inr m"
    unfolding column_mask_def same using m(1) .
  have texts: "keywords \<noteq> [] \<longrightarrow>
          (\<forall>i<length cells. \<forall>t. as_text (cells ! i) = Text t \<longrightarrow>
             m ! i = (case mode of
                        Any_keyword \<Rightarrow> (\<exists>k\<in>set keywords. ci_substring k t)
                      | All_keywords \<Rightarrow> (\<forall>k\<in>set keywords. ci_substring k t)))"
  proof (intro impI allI)
    fix i t
    assume k: "keywords \<noteq> []" and i: "i < length cells"
      and t: "as_text (cells ! i) = Text t"
    from k have "keyword_mask mode ?ds keywords = Inr (map (row_matches mode keywords) ?ds)"
      by (simp add: keyword_mask_matches)
    with m(1) have "m = map (row_matches mode keywords) ?ds" by simp
    with i have mi: "m ! i = row_matches mode keywords (astype_str na_text (cells ! i))"
      by simp
    have "astype_str na_text (cells ! i) = astype_str na_text (as_text (cells ! i))"
      by (simp only: astype_as_text)
    also have "\<dots> = Some t" by (simp only: t astype_str.simps)
    finally show "m ! i = (case mode of
                        Any_keyword \<Rightarrow> (\<exists>k\<in>set keywords. ci_substring k t)
                      | All_keywords \<Rightarrow> (\<forall>k\<in>set keywords. ci_substring k t))"
      using mi by (simp only: row_matches_text)
  qed
  from m again texts series show ?thesis
    unfolding column_mask_def by blast
qed

text \<open>
  The statement of C1 on a text cell, an integer, a floating-point number and a boolean, and
  on a series with a missing entry, for the keyword \<^verbatim>\<open>2.0\<close>.
\<close>

theorem mask_never_raises_witness:
  "column_mask (Some ''nan'') Any_keyword
     [Text ''v2.0'', Number 12, Float ''12.0'', Other ''True''] [''2.0''] =
     Inr [True, False, True, False] \<and>
   column_mask (Some ''nan'') Any_keyword
     (map as_text [Text ''v2.0'', Number 12, Float ''12.0'', Other ''True'']) [''2.0''] =
     Inr [True, False, True, False] \<and>
   keyword_mask Any_keyword [None, Some ''v2.0''] [''2.0''] = Inr [False, True]"
proof -
  have "keyword_mask Any_keyword [None, Some ''v2.0''] [''2.0''] = Inr [False, True]"
    by (simp add: any_mask_def str_contains_def re_escape_def re_special_def
        backslash_def match_here_def is_upper_def ascii_alnum_def)
  moreover
  have "column_mask (Some ''nan'') Any_keyword
          [Text ''v2.0'', Number 12, Float ''12.0'', Other ''True''] [''2.0''] =
        Inr [True, False, True, False]"
    by (simp add: column_mask_def any_mask_def str_contains_def re_escape_def re_special_def
        backslash_def match_here_def is_upper_def str_int_def ascii_alnum_def)
  ultimately show ?thesis
    using mask_never_raises [of "Some ''nan''" Any_keyword
        "[Text ''v2.0'', Number 12, Float ''12.0'', Other ''True'']" "[''2.0'']"
        "[None, Some ''v2.0'']"]
    by simp
qed

text \<open>
  Claim C1 as stated fails: the integer 12 is no text, its text is \<^verbatim>\<open>12\<close>, and
  the keyword \<^verbatim>\<open>1\<close> matches it, in both modes and whatever
  \<^verbatim>\<open>astype(str)\<close> does with missing cells.
\<close>

theorem number_cell_is_matched:
  "column_mask (Some ''nan'') Any_keyword [Number 12] [''1''] = Inr [True] \<and>
   column_mask (Some ''nan'') All_keywords [Number 12] [''1''] = Inr [True] \<and>
   column_mask None Any_keyword [Number 12] [''1''] = Inr [True] \<and>
   column_mask None All_keywords [Number 12] [''1''] = Inr [True]"
  by (simp add: column_mask_def any_mask_def all_mask_def str_contains_def re_escape_def
      re_special_def backslash_def match_here_def series_and_def is_upper_def str_int_def)

text \<open>
  Claim C3. For every column, either mode and every keyword list that is not empty (an empty
  one never reaches the mask), a row is kept exactly when the text of its cell contains the
  keywords themselves, character by character and letter case apart: one of them in the mode
  ANY, each of them in the mode ALL. No character of a keyword acts as an operator of the
  pattern language.
\<close>

theorem keywords_match_literally:
  assumes "keywords \<noteq> []"
  shows "column_mask na_text mode cells keywords =
         Inr (map (\<lambda>c. case astype_str na_text c of
                          None \<Rightarrow> False
                        | Some t \<Rightarrow>
                            (case mode of
                               Any_keyword \<Rightarrow> (\<exists>k\<in>set keywords. ci_substring k t)
                             | All_keywords \<Rightarrow> (\<forall>k\<in>set keywords. ci_substring k t)))
                  cells)"
proof -
  have "row_matches mode keywords x =
        (case x of None \<Rightarrow> False
         | Some t \<Rightarrow> (case mode of
                        Any_keyword \<Rightarrow> (\<exists>k\<in>set keywords. ci_substring k t)
                      | All_keywords \<Rightarrow> (\<forall>k\<in>set keywords. ci_substring k t)))" for x
    using row_matches_missing [OF assms, of mode]
    by (cases x) (simp_all only: row_matches_text option.case)
  then show ?thesis
    using assms by (simp add: column_mask_def keyword_mask_matches comp_def)
qed

text \<open>
  The statement of C3 for the keyword \<^verbatim>\<open>a.b\<close>: the cell \<^verbatim>\<open>xA.By\<close> is
  kept, the cell \<^verbatim>\<open>axb\<close> is not.
\<close>

theorem keywords_match_literally_witness:
  "column_mask None Any_keyword [Text ''xA.By'', Text ''axb''] [''a.b''] = Inr [True, False] \<and>
   column_mask None All_keywords [Text ''xA.By'', Text ''axb''] [''a.b''] = Inr [True, False] \<and>
   ci_substring ''a.b'' ''xA.By'' \<and> \<not> ci_substring ''a.b'' ''axb''"
proof -
  have s: "ci_substring ''a.b'' ''xA.By''" "\<not> ci_substring ''a.b'' ''axb''"
    by (simp_all add: ci_substring_def lower_def is_upper_def sublist_Cons_right)
  have ne: "[''a.b''] \<noteq> []" by simp
  show ?thesis
    using s keywords_match_literally [OF ne, of None Any_keyword "[Text ''xA.By'', Text ''axb'']"]
      keywords_match_literally [OF ne, of None All_keywords "[Text ''xA.By'', Text ''axb'']"]
    by simp
qed

text \<open>
  The escaping is what makes the difference: as a pattern, \<^verbatim>\<open>a.b\<close> itself matches
  the text \<^verbatim>\<open>axb\<close>.
\<close>

lemma unescaped_dot_is_an_operator:
  "str_contains ''a.b'' [Some ''axb''] = Inr [True] \<and>
   str_contains (re_escape ''a.b'') [Some ''axb''] = Inr [False]"
  by (simp add: str_contains_def re_escape_def re_special_def backslash_def match_here_def
      is_upper_def ascii_alnum_def)

text \<open>
  Claim C10. For every column and every single keyword, the mask of the mode ANY (one pattern
  of alternatives) and the mask of the mode ALL (the loop of conjunctions) are the same.
\<close>

theorem any_and_all_agree_on_one_keyword:
  "column_mask na_text Any_keyword cells [k] = column_mask na_text All_keywords cells [k]"
proof -
  let ?ds = "map (astype_str na_text) cells"
  have any: "any_mask ?ds [k] = str_contains (re_escape k) ?ds"
    by (simp add: any_mask_def)
  obtain hits where hits: "str_contains (re_escape k) ?ds = Inr hits" "length hits = length ?ds"
    by (simp add: str_contains_escape)
  have "series_and (replicate (length ?ds) True) hits = hits"
    using hits(2) by (simp add: series_and_def list_eq_iff_nth_eq)
  then have "all_mask ?ds [k] = Inr hits"
    using hits(1) by (simp add: all_mask_def)
  with any hits(1) show ?thesis by (simp add: column_mask_def)
qed

text \<open>
  Claim C5. For every column, adding a keyword anywhere in the keyword list never lowers the
  number of rows kept in the mode ANY and never raises it in the mode ALL. In the mode ANY
  the list added to is not empty: the run stops before the mask when no keyword was parsed.
\<close>

theorem keyword_monotonicity:
  "(K1 @ K2 \<noteq> [] \<longrightarrow>
      (\<exists>m m'. column_mask na_text Any_keyword cells (K1 @ K2) = Inr m \<and>
               column_mask na_text Any_keyword cells (K1 @ k # K2) = Inr m' \<and>
               count_true m \<le> count_true m')) \<and>
   (\<exists>m m'. column_mask na_text All_keywords cells (K1 @ K2) = Inr m \<and>
            column_mask na_text All_keywords cells (K1 @ k # K2) = Inr m' \<and>
            count_true m' \<le> count_true m)"
proof -
  let ?ds = "map (astype_str na_text) cells"
  have any: "count_true (map (row_matches Any_keyword (K1 @ K2)) ?ds)
             \<le> count_true (map (row_matches Any_keyword (K1 @ k # K2)) ?ds)"
    by (rule count_true_map_mono) (auto simp: list_ex_iff)
  have all: "count_true (map (row_matches All_keywords (K1 @ k # K2)) ?ds)
             \<le> count_true (map (row_matches All_keywords (K1 @ K2)) ?ds)"
    by (rule count_true_map_mono) (auto simp: list_all_iff)
  from any all show ?thesis
    by (simp add: column_mask_def any_mask_matches all_mask_matches)
qed

text \<open>
  The statement of C5 where the keyword \<^verbatim>\<open>log\<close> is added to \<^verbatim>\<open>mask\<close>:
  one row more in the mode ANY, one row less in the mode ALL.
\<close>

theorem keyword_monotonicity_witness:
  "column_mask None Any_keyword [Text ''masking'', Text ''login''] ([''mask''] @ []) = Inr [True, False] \<and>
   column_mask None Any_keyword [Text ''masking'', Text ''login''] ([''mask''] @ ''log'' # []) = Inr [True, True] \<and>
   column_mask None All_keywords [Text ''masking'', Text ''login''] ([''mask''] @ []) = Inr [True, False] \<and>
   column_mask None All_keywords [Text ''masking'', Text ''login''] ([''mask''] @ ''log'' # []) = Inr [False, False]"
proof -
  have "column_mask None Any_keyword [Text ''masking'', Text ''login''] [''mask''] = Inr [True, False]"
       "column_mask None Any_keyword [Text ''masking'', Text ''login''] [''mask'', ''log''] = Inr [True, True]"
       "column_mask None All_keywords [Text ''masking'', Text ''login''] [''mask''] = Inr [True, False]"
       "column_mask None All_keywords [Text ''masking'', Text ''login''] [''mask'', ''log''] = Inr [False, False]"
    by (simp_all add: column_mask_def any_mask_def all_mask_def str_contains_def re_escape_def
        re_special_def backslash_def match_here_def series_and_def is_upper_def)
  then show ?thesis
    using keyword_monotonicity [of "[''mask'']" "[]" None "[Text ''masking'', Text ''login'']" "''log''"]
    by (simp add: count_true_def)
qed

section \<open>Combining tables and projecting\<close>

lemma remdups_seen_again:
  "x \<in> set ys \<Longrightarrow> remdups (xs @ x # ys) = remdups (xs @ ys)"
  by (induction xs) auto

lemma unique_append_first_appearance:
  "distinct seen \<Longrightarrow> unique_append seen xs = rev (remdups (rev (seen @ xs)))"
proof (induction xs arbitrary: seen)
  case Nil
  then show ?case by (simp add: distinct_remdups_id)
next
  case (Cons x xs)
  show ?case
  proof (cases "x \<in> set seen")
    case True
    then have "remdups (rev xs @ x # rev seen) = remdups (rev xs @ rev seen)"
      by (intro remdups_seen_again) simp
    with True Cons show ?thesis by simp
  next
    case False
    with Cons.prems have "distinct (seen @ [x])" by simp
    from Cons.IH [OF this] False show ?thesis by simp
  qed
qed

lemma first_appearance_absorb:
  "rev (remdups (rev (rev (remdups (rev ys)) @ rest))) = rev (remdups (rev (ys @ rest)))"
  by (simp add: remdups_append2)

lemma fold_unique_append:
  "distinct seen \<Longrightarrow>
   fold (\<lambda>cs seen. unique_append seen cs) css seen = rev (remdups (rev (seen @ concat css)))"
proof (induction css arbitrary: seen)
  case Nil
  then show ?case by (simp add: distinct_remdups_id)
next
  case (Cons cs css)
  have d: "distinct (unique_append seen cs)"
    using Cons.prems by (simp add: unique_append_first_appearance)
  have "fold (\<lambda>cs seen. unique_append seen cs) (cs # css) seen =
        rev (remdups (rev (unique_append seen cs @ concat css)))"
    using Cons.IH [OF d] by simp
  also have "\<dots> = rev (remdups (rev ((seen @ cs) @ concat css)))"
    unfolding unique_append_first_appearance [OF Cons.prems]
    by (rule first_appearance_absorb)
  finally show ?case by simp
qed

lemma union_columns_ordered_union: "union_columns css = ordered_union css"
  by (simp add: union_columns_def ordered_union_def fold_unique_append)

lemma nth_concat_offset:
  "j < length xss \<Longrightarrow> i < length (xss ! j) \<Longrightarrow>
   concat xss ! (sum_list (map length (take j xss)) + i) = xss ! j ! i"
proof (induction xss arbitrary: j)
  case Nil
  then show ?case by simp
next
  case (Cons xs xss)
  then show ?case by (cases j) (simp_all add: nth_append)
qed

lemma cell_at_concat_row:
  "c \<in> set new_cols \<Longrightarrow>
   cell_at new_cols (concat_row dfs new_cols cols row) c =
     (if upcasts dfs c then to_float64 (cell_at cols row c) else cell_at cols row c)"
  by (simp add: cell_at_def [of new_cols] concat_row_def map_of_zip_map)

lemma cell_at_no_column: "c \<notin> set cols \<Longrightarrow> cell_at cols row c = Missing"
proof -
  assume "c \<notin> set cols"
  then have "c \<notin> fst ` set (zip cols row)" by (auto dest: set_zip_leftD)
  then have "map_of (zip cols row) c = None" by (simp add: map_of_eq_None_iff)
  then show ?thesis by (simp add: cell_at_def)
qed

lemma cell_at_in_row: "cell_at cols row c = Missing \<or> cell_at cols row c \<in> set row"
proof (cases "map_of (zip cols row) c")
  case None
  then show ?thesis by (simp add: cell_at_def)
next
  case (Some v)
  then have "(c, v) \<in> set (zip cols row)" by (rule map_of_SomeD)
  then have "v \<in> set row" by (rule set_zip_rightD)
  with Some show ?thesis by (simp add: cell_at_def)
qed

lemma object_column_has_object:
  assumes "infer_dtype cs = Object" and "column_typed cs"
  shows "list_ex is_object cs"
proof (cases "list_ex is_number cs")
  case True
  with assms show ?thesis
    by (auto simp: infer_dtype_def column_typed_def split: if_splits)
next
  case False
  from assms(1) have "\<not> list_all is_float64 cs"
    by (auto simp: infer_dtype_def split: if_splits)
  then obtain x where x: "x \<in> set cs" "\<not> is_float64 x" by (auto simp: list_all_iff)
  with False have "\<not> is_number x" by (auto simp: list_ex_iff)
  with x(2) have "is_object x"
    by (cases x) (simp_all add: is_float64_def is_number_def is_object_def)
  with x(1) show ?thesis by (auto simp: list_ex_iff)
qed

lemma to_float64_no_number: "convertible x \<Longrightarrow> \<not> is_number (to_float64 x)"
  by (cases x) (auto simp: convertible_def is_number_def)

lemma stacked_column_typed:
  assumes wf: "\<forall>d\<in>set dfs. wf_frame d"
    and conv: "\<forall>d\<in>set dfs. \<forall>x\<in>set (column_cells d c). convertible x"
    and rows: "(\<forall>d\<in>set dfs. df_rows d \<noteq> []) \<or> (\<forall>d\<in>set dfs. \<forall>c. \<not> list_ex is_number (column_cells d c))"
  shows "column_typed (concat (map (\<lambda>d. map (\<lambda>x. if upcasts dfs c then to_float64 x else x)
                                         (column_cells d c)) dfs))"
proof (cases "upcasts dfs c")
  case True
  then have "\<not> list_ex is_number (concat (map (\<lambda>d. map (\<lambda>x. if upcasts dfs c then to_float64 x else x)
                                         (column_cells d c)) dfs))"
    using conv by (auto simp: list_ex_iff to_float64_no_number)
  then show ?thesis by (simp add: column_typed_def)
next
  case False
  let ?col = "concat (map (\<lambda>d. column_cells d c) dfs)"
  have col: "concat (map (\<lambda>d. map (\<lambda>x. if upcasts dfs c then to_float64 x else x)
                                  (column_cells d c)) dfs) = ?col"
    using False by simp
  let ?present = "filter (\<lambda>d. c \<in> set (df_columns d)) dfs"
  let ?dtypes = "map (\<lambda>d. infer_dtype (column_cells d c)) ?present"
  have typed: "column_typed ?col"
  proof (cases "Object \<in> set ?dtypes")
    case True
    then obtain d where d: "d \<in> set dfs" "c \<in> set (df_columns d)"
      "infer_dtype (column_cells d c) = Object" by auto
    from wf d(1,2) have "column_typed (column_cells d c)"
      by (auto simp: wf_frame_def list_all_iff)
    with d(3) have "list_ex is_object (column_cells d c)" by (rule object_column_has_object)
    with d(1) have "list_ex is_object ?col" by (auto simp: list_ex_iff)
    then show ?thesis by (simp add: column_typed_def)
  next
    case noobj: False
    show ?thesis
    proof (cases "\<forall>d\<in>set dfs. \<forall>c. \<not> list_ex is_number (column_cells d c)")
      case True
      then have "\<not> list_ex is_number ?col" by (auto simp: list_ex_iff)
      then show ?thesis by (simp add: column_typed_def)
    next
      case hasnum: False
      with rows have nonempty: "\<forall>d\<in>set dfs. df_rows d \<noteq> []" by blast
      from False noobj have nofloat: "Float64 \<notin> set ?dtypes"
        and all: "\<forall>d\<in>set dfs. c \<in> set (df_columns d)"
        by (auto simp: upcasts_def Let_def list_ex_iff)
      have "list_all is_number (column_cells d c)" if "d \<in> set dfs" for d
      proof -
        from all that have "infer_dtype (column_cells d c) \<in> set ?dtypes" by auto
        with noobj nofloat have "infer_dtype (column_cells d c) = Int64"
          by (cases "infer_dtype (column_cells d c)") auto
        then show ?thesis by (auto simp: infer_dtype_def split: if_splits)
      qed
      then have "list_all is_number ?col" by (auto simp: list_all_iff)
      then show ?thesis by (simp add: column_typed_def)
    qed
  qed
  show ?thesis unfolding col by (rule typed)
qed

lemma to_float64_other: "\<forall>n. x \<noteq> Number n \<Longrightarrow> to_float64 x = x"
  by (cases x) auto

text \<open>
  Claim C4, as the code has it. For every sequence of well-formed tables that is not empty,
  \<open>pd_concat\<close> gives a well-formed table with as many rows as the tables have together; its
  columns are all the columns of the tables, each once, in the order of first appearance; and
  row \<open>i\<close> of table \<open>j\<close> stands at the place that comes after all the rows of the tables
  before \<open>j\<close> and the rows before \<open>i\<close>, with a missing value under every column its table
  lacks. Under a column its table has, a cell that is no integer is the cell of the input row;
  an integer is the cell of the input row too, unless the stacked column is a floating-point
  column (\<open>upcasts\<close>): then it is the floating-point number nearest to it. The tables all
  have a row or hold no integer, and their integers have a modelled floating-point text.
\<close>

theorem pd_concat_rows_and_columns:
  assumes "dfs \<noteq> []" and "\<forall>d\<in>set dfs. wf_frame d"
    and "(\<forall>d\<in>set dfs. df_rows d \<noteq> []) \<or> (\<forall>d\<in>set dfs. \<not> has_number d)"
    and "\<forall>d\<in>set dfs. \<forall>r\<in>set (df_rows d). \<forall>x\<in>set r. convertible x"
  shows "\<exists>out. pd_concat dfs = Inr out \<and> wf_frame out \<and>
           length (df_rows out) = sum_list (map (\<lambda>d. length (df_rows d)) dfs) \<and>
           df_columns out = ordered_union (map df_columns dfs) \<and>
           set (df_columns out) = (\<Union>d\<in>set dfs. set (df_columns d)) \<and>
           (\<forall>j<length dfs. \<forall>i<length (df_rows (dfs ! j)). \<forall>c\<in>set (df_columns out).
              cell_at (df_columns out) (df_rows out ! (row_offset dfs j + i)) c =
                (if c \<in> set (df_columns (dfs ! j))
                 then (if upcasts dfs c
                       then to_float64 (cell_at (df_columns (dfs ! j)) (df_rows (dfs ! j) ! i) c)
                       else cell_at (df_columns (dfs ! j)) (df_rows (dfs ! j) ! i) c)
                 else Missing) \<and>
              ((\<forall>n. cell_at (df_columns (dfs ! j)) (df_rows (dfs ! j) ! i) c \<noteq> Number n) \<longrightarrow>
                 cell_at (df_columns out) (df_rows out ! (row_offset dfs j + i)) c =
                 cell_at (df_columns (dfs ! j)) (df_rows (dfs ! j) ! i) c) \<and>
              (\<forall>n. cell_at (df_columns (dfs ! j)) (df_rows (dfs ! j) ! i) c = Number n \<and>
                    upcasts dfs c \<longrightarrow>
                 (\<exists>s. float_text n = Some s \<and>
                      cell_at (df_columns out) (df_rows out ! (row_offset dfs j + i)) c = Float s)))"
proof -
  define U where "U = union_columns (map df_columns dfs)"
  define F :: "data_frame \<Rightarrow> cell list list"
    where "F = (\<lambda>d. map (concat_row dfs U (df_columns d)) (df_rows d))"
  define out where "out = \<lparr>df_columns = U, df_rows = concat (map F dfs)\<rparr>"
  have conv: "convertible (cell_at (df_columns d) r c)" if "d \<in> set dfs" "r \<in> set (df_rows d)"
    for d r c
    using cell_at_in_row [of "df_columns d" r c] assms(4) that
    by (auto simp: convertible_def)
  have norows: "\<not> (list_ex (\<lambda>d. df_rows d = []) dfs \<and> list_ex has_number dfs)"
    using assms(3) by (auto simp: list_ex_iff)
  have modelled: "list_all modelled_frame dfs"
    using assms(2,4) by (auto simp: modelled_frame_def list_all_iff)
  have res: "pd_concat dfs = Inr out"
    using assms(1) norows modelled
    by (simp add: pd_concat_def out_def U_def F_def Let_def)
  have U: "U = ordered_union (map df_columns dfs)"
    by (simp add: U_def union_columns_ordered_union)
  have setU: "set U = (\<Union>d\<in>set dfs. set (df_columns d))"
    by (simp add: U ordered_union_def)
  have colsout: "column_cells out c =
        concat (map (\<lambda>d. map (\<lambda>x. if upcasts dfs c then to_float64 x else x)
                              (column_cells d c)) dfs)" if "c \<in> set U" for c
    using that
    by (simp add: column_cells_def out_def F_def map_concat comp_def cell_at_concat_row)
  have convcol: "\<forall>d\<in>set dfs. \<forall>x\<in>set (column_cells d c). convertible x" for c
    using conv by (auto simp: column_cells_def)
  have nonum: "\<forall>c. \<not> list_ex is_number (column_cells d c)" if "\<not> has_number d" for d
  proof (intro allI notI)
    fix c assume "list_ex is_number (column_cells d c)"
    then obtain r where r: "r \<in> set (df_rows d)" "is_number (cell_at (df_columns d) r c)"
      by (auto simp: list_ex_iff column_cells_def)
    with cell_at_in_row [of "df_columns d" r c] have "cell_at (df_columns d) r c \<in> set r"
      by (auto simp: is_number_def)
    with r that show False by (auto simp: has_number_def list_ex_iff)
  qed
  have rows': "(\<forall>d\<in>set dfs. df_rows d \<noteq> []) \<or>
               (\<forall>d\<in>set dfs. \<forall>c. \<not> list_ex is_number (column_cells d c))"
    using assms(3) nonum by blast
  have typed: "column_typed (column_cells out c)" if "c \<in> set U" for c
    unfolding colsout [OF that]
    by (rule stacked_column_typed [OF assms(2) convcol rows'])
  have wf: "wf_frame out"
    using typed
    by (auto simp: wf_frame_def out_def U ordered_union_def F_def concat_row_def list_all_iff)
  have lenF: "\<And>d. length (F d) = length (df_rows d)" by (simp add: F_def)
  have len: "length (df_rows out) = sum_list (map (\<lambda>d. length (df_rows d)) dfs)"
    by (simp add: out_def length_concat comp_def lenF)
  have cells: "cell_at (df_columns out) (df_rows out ! (row_offset dfs j + i)) c =
                (if c \<in> set (df_columns (dfs ! j))
                 then (if upcasts dfs c
                       then to_float64 (cell_at (df_columns (dfs ! j)) (df_rows (dfs ! j) ! i) c)
                       else cell_at (df_columns (dfs ! j)) (df_rows (dfs ! j) ! i) c)
                 else Missing) \<and>
              ((\<forall>n. cell_at (df_columns (dfs ! j)) (df_rows (dfs ! j) ! i) c \<noteq> Number n) \<longrightarrow>
                 cell_at (df_columns out) (df_rows out ! (row_offset dfs j + i)) c =
                 cell_at (df_columns (dfs ! j)) (df_rows (dfs ! j) ! i) c) \<and>
              (\<forall>n. cell_at (df_columns (dfs ! j)) (df_rows (dfs ! j) ! i) c = Number n \<and>
                    upcasts dfs c \<longrightarrow>
                 (\<exists>s. float_text n = Some s \<and>
                      cell_at (df_columns out) (df_rows out ! (row_offset dfs j + i)) c = Float s))"
    if j: "j < length dfs" and i: "i < length (df_rows (dfs ! j))"
      and c: "c \<in> set (df_columns out)" for j i c
  proof -
    let ?x = "cell_at (df_columns (dfs ! j)) (df_rows (dfs ! j) ! i) c"
    let ?y = "cell_at (df_columns out) (df_rows out ! (row_offset dfs j + i)) c"
    have off: "row_offset dfs j = sum_list (map length (take j (map F dfs)))"
      by (simp add: row_offset_def take_map comp_def lenF)
    have "concat (map F dfs) ! (row_offset dfs j + i) = map F dfs ! j ! i"
      unfolding off using j i by (intro nth_concat_offset) (simp_all add: lenF)
    also have "\<dots> = concat_row dfs U (df_columns (dfs ! j)) (df_rows (dfs ! j) ! i)"
      using j i by (simp add: F_def)
    finally have row: "df_rows out ! (row_offset dfs j + i) =
                       concat_row dfs U (df_columns (dfs ! j)) (df_rows (dfs ! j) ! i)"
      by (simp add: out_def)
    from c have cU: "c \<in> set U" by (simp add: out_def)
    have y: "?y = (if upcasts dfs c then to_float64 ?x else ?x)"
      unfolding row using cU by (simp add: out_def cell_at_concat_row)
    have lack: "c \<notin> set (df_columns (dfs ! j)) \<Longrightarrow> ?x = Missing"
      by (rule cell_at_no_column)
    have first: "?y = (if c \<in> set (df_columns (dfs ! j))
                       then (if upcasts dfs c then to_float64 ?x else ?x) else Missing)"
      using y lack by (cases "c \<in> set (df_columns (dfs ! j))") simp_all
    have second: "(\<forall>n. ?x \<noteq> Number n) \<longrightarrow> ?y = ?x"
      using y to_float64_other [of ?x] by auto
    have third: "\<forall>n. ?x = Number n \<and> upcasts dfs c \<longrightarrow> (\<exists>s. float_text n = Some s \<and> ?y = Float s)"
    proof (intro allI impI)
      fix n assume n: "?x = Number n \<and> upcasts dfs c"
      have "dfs ! j \<in> set dfs" "df_rows (dfs ! j) ! i \<in> set (df_rows (dfs ! j))"
        using j i by simp_all
      from conv [OF this, of c] n obtain s where "float_text n = Some s"
        by (auto simp: convertible_def)
      with y n show "\<exists>s. float_text n = Some s \<and> ?y = Float s" by simp
    qed
    from first second third show ?thesis by blast
  qed
  have cols: "df_columns out = ordered_union (map df_columns dfs)"
    "set (df_columns out) = (\<Union>d\<in>set dfs. set (df_columns d))"
    using U setU by (simp_all add: out_def)
  from res wf len cols cells show ?thesis by blast
qed

text \<open>
  The statement of C4 for two tables that share the text column \<^verbatim>\<open>d\<close>: the integer
  column \<^verbatim>\<open>i\<close> of the first is lacking in the second and becomes a floating-point
  column.
\<close>

theorem pd_concat_rows_and_columns_witness:
  "pd_concat [\<lparr>df_columns = [''i'', ''d''], df_rows = [[Number 1, Text ''x'']]\<rparr>,
              \<lparr>df_columns = [''d'', ''o''], df_rows = [[Text ''y'', Text ''ann'']]\<rparr>] =
     Inr \<lparr>df_columns = [''i'', ''d'', ''o''],
          df_rows = [[Float ''1.0'', Text ''x'', Missing], [Missing, Text ''y'', Text ''ann'']]\<rparr> \<and>
   ordered_union [[''i'', ''d''], [''d'', ''o'']] = [''i'', ''d'', ''o'']"
proof -
  let ?A = "\<lparr>df_columns = [''i'', ''d''], df_rows = [[Number 1, Text ''x'']]\<rparr>"
  let ?B = "\<lparr>df_columns = [''d'', ''o''], df_rows = [[Text ''y'', Text ''ann'']]\<rparr>"
  have ne: "[?A, ?B] \<noteq> []" by simp
  have wf: "\<forall>d\<in>set [?A, ?B]. wf_frame d"
    by (simp add: wf_frame_def column_typed_def column_cells_def cell_at_def is_number_def
        is_object_def)
  have rows: "(\<forall>d\<in>set [?A, ?B]. df_rows d \<noteq> []) \<or> (\<forall>d\<in>set [?A, ?B]. \<not> has_number d)"
    by simp
  have small: "\<forall>d\<in>set [?A, ?B]. \<forall>r\<in>set (df_rows d). \<forall>x\<in>set r. convertible x"
    by (simp add: convertible_def float_text_def)
  have ev: "pd_concat [?A, ?B] =
     Inr \<lparr>df_columns = [''i'', ''d'', ''o''],
          df_rows = [[Float ''1.0'', Text ''x'', Missing], [Missing, Text ''y'', Text ''ann'']]\<rparr>"
    by (simp add: pd_concat_def union_columns_def concat_row_def cell_at_def upcasts_def
        infer_dtype_def column_cells_def is_float64_def has_number_def is_number_def
        is_object_def convertible_def float_text_def modelled_frame_def wf_frame_def
        column_typed_def)
  from pd_concat_rows_and_columns [OF ne wf rows small] ev show ?thesis
    by (auto simp: ordered_union_def)
qed

text \<open>
  Claim C4 as stated fails: the rows of the result are not the input rows where an integer
  column meets a table that lacks it. The integer 12 comes out as the floating-point number
  \<^verbatim>\<open>12.0\<close>, and \<open>2 ^ 53 + 1\<close> comes out as another number, \<open>2 ^ 53\<close>.
\<close>

theorem pd_concat_converts_integers:
  "pd_concat [\<lparr>df_columns = [''n''], df_rows = [[Number 12], [Number 9007199254740993]]\<rparr>,
              \<lparr>df_columns = [''d''], df_rows = [[Text ''x'']]\<rparr>] =
     Inr \<lparr>df_columns = [''n'', ''d''],
          df_rows = [[Float ''12.0'', Missing], [Float ''9007199254740992.0'', Missing],
                     [Missing, Text ''x'']]\<rparr> \<and>
   Float ''12.0'' \<noteq> Number 12 \<and>
   Float ''9007199254740992.0'' \<noteq> Number 9007199254740993"
  by (simp add: pd_concat_def union_columns_def concat_row_def cell_at_def upcasts_def
      infer_dtype_def column_cells_def is_float64_def has_number_def is_number_def
      is_object_def convertible_def float_text_def modelled_frame_def wf_frame_def
      column_typed_def)

lemma filter_mask_nths:
  "length xs = length bs \<Longrightarrow> map fst (filter snd (zip xs bs)) = nths xs {i. bs ! i}"
proof (induction xs bs rule: list_induct2)
  case Nil
  then show ?case by simp
next
  case (Cons x xs b bs)
  then show ?case by (simp add: nths_Cons)
qed

text \<open>
  Claim C7. For every table, every mask with one value per row and every list of retained
  columns that are columns of the table, the projection succeeds; its columns are the
  retained columns in the order given; and its rows are the rows of the table at the
  positions where the mask is true, in their original order (\<^const>\<open>nths\<close> keeps the
  elements at the given positions, in order), each cut down to the retained columns.
\<close>

theorem projection_rows_and_columns:
  assumes "length mask_series = length (df_rows d)"
    and "set retained \<subseteq> set (df_columns d)"
  shows "\<exists>out. df_loc d mask_series retained = Inr out \<and> df_columns out = retained \<and>
           df_rows out = map (\<lambda>r. map (cell_at (df_columns d) r) retained)
                             (nths (df_rows d) {i. mask_series ! i})"
  using assms
  by (auto simp: df_loc_def list_all_iff filter_mask_nths)

text \<open>
  The statement of C7 where the middle row is masked out and the two columns are retained
  in the opposite order.
\<close>

theorem projection_rows_and_columns_witness:
  "df_loc \<lparr>df_columns = [''i'', ''d''],
           df_rows = [[Text ''1'', Text ''x''], [Text ''2'', Text ''y''], [Text ''3'', Text ''z'']]\<rparr>
     [True, False, True] [''d'', ''i''] =
   Inr \<lparr>df_columns = [''d'', ''i''], df_rows = [[Text ''x'', Text ''1''], [Text ''z'', Text ''3'']]\<rparr>"
proof -
  let ?d = "\<lparr>df_columns = [''i'', ''d''],
           df_rows = [[Text ''1'', Text ''x''], [Text ''2'', Text ''y''], [Text ''3'', Text ''z'']]\<rparr>"
  have len: "length [True, False, True] = length (df_rows ?d)" by simp
  have sub: "set [''d'', ''i''] \<subseteq> set (df_columns ?d)" by simp
  have ev: "df_loc ?d [True, False, True] [''d'', ''i''] =
   Inr \<lparr>df_columns = [''d'', ''i''], df_rows = [[Text ''x'', Text ''1''], [Text ''z'', Text ''3'']]\<rparr>"
    by (simp add: df_loc_def cell_at_def)
  from projection_rows_and_columns [OF len sub] ev show ?thesis
    by auto
qed

section \<open>Parsing the keyword text\<close>

text \<open>
  The pieces of a split hold no separator, and joining them with the separator gives the
  text back.
\<close>

lemma split_on_nonempty: "split_on sep s \<noteq> []"
  by (induction s) (auto split: list.splits)

lemma join_split_on: "join [sep] (split_on sep s) = s"
proof (induction s)
  case Nil
  then show ?case by simp
next
  case (Cons c s)
  obtain w ws where p: "split_on sep s = w # ws"
    using split_on_nonempty [of sep s] by (cases "split_on sep s") auto
  show ?case
  proof (cases "c = sep")
    case True
    with Cons p show ?thesis by simp
  next
    case False
    with Cons p show ?thesis by (cases ws) auto
  qed
qed

lemma split_on_no_separator: "p \<in> set (split_on sep s) \<Longrightarrow> sep \<notin> set p"
proof (induction s arbitrary: p)
  case Nil
  then show ?case by simp
next
  case (Cons c s)
  then show ?case
    by (cases "split_on sep s") (auto split: if_splits)
qed

lemma dropWhile_twice: "dropWhile P (dropWhile P xs) = dropWhile P xs"
  by (induction xs) auto

lemma last_dropWhile_rev:
  "dropWhile P (rev t) \<noteq> [] \<Longrightarrow> last (dropWhile P (rev t)) = hd t"
proof -
  assume ne: "dropWhile P (rev t) \<noteq> []"
  then have t: "t \<noteq> []" by auto
  have "rev t = takeWhile P (rev t) @ dropWhile P (rev t)" by simp
  then have "last (rev t) = last (dropWhile P (rev t))"
    using ne by (metis last_appendR)
  with t show ?thesis by (simp add: last_rev)
qed

lemma strip_idem: "strip (strip s) = strip s"
proof -
  define t where "t = dropWhile is_space s"
  define u where "u = dropWhile is_space (rev t)"
  have s: "strip s = rev u" by (simp add: strip_def t_def u_def)
  have front: "dropWhile is_space (rev u) = rev u"
  proof (cases "u = []")
    case True
    then show ?thesis by simp
  next
    case False
    then have "last u = hd t" unfolding u_def by (rule last_dropWhile_rev)
    moreover have "t \<noteq> []" using False by (auto simp: u_def)
    then have "\<not> is_space (hd t)" unfolding t_def by (rule hd_dropWhile)
    ultimately have "\<not> is_space (hd (rev u))" using False by (simp add: hd_rev)
    then show ?thesis using False by (cases "rev u") simp_all
  qed
  have rear: "dropWhile is_space u = u"
    by (simp add: u_def dropWhile_twice)
  show ?thesis
    unfolding s by (simp add: strip_def front rear)
qed

text \<open>
  Claim C8. The keyword list is what is left of the pieces between the commas after each is
  stripped and the empty ones are dropped; every keyword is non-empty and stripped. When no
  keyword is left, the run halts with a warning and the heap is as it was: no series, no
  mask, no projection and no workbook has been made.
\<close>

theorem keywords_parsed_or_halted:
  "parse_keywords keyword_text =
     filter (\<lambda>k. k \<noteq> []) (map strip (split_on (CHR '','') keyword_text)) \<and>
   (\<forall>k\<in>set (parse_keywords keyword_text). k \<noteq> [] \<and> strip k = k) \<and>
   (parse_keywords keyword_text = [] \<longrightarrow>
      (\<exists>msg. filter_stories na_text h combined_df desc_col retain_cols keyword_text match_mode =
               (Halted msg, h)))"
proof -
  have eq: "parse_keywords keyword_text =
            filter (\<lambda>k. k \<noteq> []) (map strip (split_on (CHR '','') keyword_text))"
    by (simp add: parse_keywords_def filter_map comp_def)
  have each: "\<forall>k\<in>set (parse_keywords keyword_text). k \<noteq> [] \<and> strip k = k"
    by (auto simp: parse_keywords_def strip_idem)
  have halt: "parse_keywords keyword_text = [] \<longrightarrow>
      (\<exists>msg. filter_stories na_text h combined_df desc_col retain_cols keyword_text match_mode =
               (Halted msg, h))"
    by (simp add: filter_stories_def)
  from eq each halt show ?thesis by blast
qed

text \<open>
  The statement of C8 on a text with an empty piece, and on a text of commas and blanks only.
\<close>

theorem keywords_parsed_or_halted_witness:
  "parse_keywords ''security, ,privacy '' = [''security'', ''privacy''] \<and>
   parse_keywords '' , ,'' = [] \<and>
   filter_stories None [Frame \<lparr>df_columns = [''d''], df_rows = [[Text ''x'']]\<rparr>] 0 ''d'' [''d'']
     '' , ,'' Any_keyword =
     (Halted ''No valid keywords parsed.'',
      [Frame \<lparr>df_columns = [''d''], df_rows = [[Text ''x'']]\<rparr>])"
proof -
  have p: "parse_keywords ''security, ,privacy '' = [''security'', ''privacy'']"
    "parse_keywords '' , ,'' = []"
    by code_simp+
  have q: "strip '' , ,'' \<noteq> []"
    by (simp add: strip_def is_space_def)
  have "filter_stories None [Frame \<lparr>df_columns = [''d''], df_rows = [[Text ''x'']]\<rparr>] 0 ''d'' [''d'']
     '' , ,'' Any_keyword =
     (Halted ''No valid keywords parsed.'',
      [Frame \<lparr>df_columns = [''d''], df_rows = [[Text ''x'']]\<rparr>])"
    using keywords_parsed_or_halted [of "'' , ,''" None
        "[Frame \<lparr>df_columns = [''d''], df_rows = [[Text ''x'']]\<rparr>]" 0 "''d''" "[''d'']" Any_keyword]
    by (simp only: filter_stories_def p q Let_def if_False if_True simp_thms)
  with p show ?thesis by simp
qed

section \<open>The run on the heap\<close>

lemma bools_at_last: "bools_at (h @ [BoolSeries m]) (length h) = Inr m"
  by (simp add: bools_at_def)

lemma texts_at_last: "texts_at (h @ [TextSeries ds]) (length h) = Inr ds"
  by (simp add: texts_at_def)

lemma frame_at_append: "frame_at h c = Inr df \<Longrightarrow> frame_at (h @ new) c = Inr df"
  by (auto simp: frame_at_def nth_append split: if_splits)

lemma all_loop_heap_writes_mask:
  "\<exists>m'. all_loop m ds ks = Inr m' \<and>
        all_loop_heap (h @ [BoolSeries m]) (length h) ds ks = (None, h @ [BoolSeries m'])"
proof (induction ks arbitrary: m)
  case Nil
  then show ?case by simp
next
  case (Cons k ks)
  from Cons.IH [of "series_and m (map (cell_matches k) ds)"]
  show ?case by (simp add: str_contains_escape bools_at_last)
qed

lemma make_mask_result:
  assumes "texts_at h descriptions = Inr ds"
  shows "\<exists>m. keyword_mask mode ds ks = Inr m \<and> length m = length ds \<and>
             make_mask h descriptions (length ds) ks mode = (Inr (length h), h @ [BoolSeries m])"
proof (cases mode)
  case Any_keyword
  from any_mask_total [of ds ks] obtain m where "any_mask ds ks = Inr m" "length m = length ds"
    by blast
  with assms Any_keyword show ?thesis by (simp add: make_mask_def alloc_def)
next
  case All_keywords
  from all_loop_heap_writes_mask [of "replicate (length ds) True" ds ks h]
  obtain m where m: "all_loop (replicate (length ds) True) ds ks = Inr m"
    "all_loop_heap (h @ [BoolSeries (replicate (length ds) True)]) (length h) ds ks =
       (None, h @ [BoolSeries m])"
    by blast
  have "all_mask ds ks = Inr m" using m(1) by (simp add: all_mask_def)
  then have "length m = length ds" by (auto simp: all_mask_matches)
  with assms All_keywords m show ?thesis
    by (simp add: make_mask_def alloc_def all_mask_def)
qed

lemma project_and_export_result:
  assumes "frame_at h c = Inr df" and "bools_at h mask_ref = Inr m"
  shows "project_and_export h c mask_ref retain =
           (case df_loc df m retain of
              Inl e \<Rightarrow> (Raised e, h)
            | Inr sel \<Rightarrow> (Shown (length h + 1) (length h + 2),
                          h @ [Frame sel, Frame sel, Workbook ''FilteredStories'' sel]))"
  using assms by (simp add: project_and_export_def alloc_def split: sum.splits)

lemma run_filter_result:
  assumes "frame_at h c = Inr df" and "get_column df desc = Inr col"
  shows "\<exists>m. column_mask na mode col ks = Inr m \<and> length m = length col \<and>
           run_filter na h c desc retain ks mode =
             (case df_loc df m retain of
                Inl e \<Rightarrow> (Raised e, h @ [TextSeries (map (astype_str na) col), BoolSeries m])
              | Inr sel \<Rightarrow>
                  (Shown (length h + 3) (length h + 4),
                   h @ [TextSeries (map (astype_str na) col), BoolSeries m,
                        Frame sel, Frame sel, Workbook ''FilteredStories'' sel]))"
proof -
  let ?ds = "map (astype_str na) col"
  let ?h1 = "h @ [TextSeries ?ds]"
  have n: "length (df_rows df) = length ?ds"
    using assms(2) by (auto simp: get_column_def split: if_splits)
  have "texts_at ?h1 (length h) = Inr ?ds" by (rule texts_at_last)
  from make_mask_result [OF this, of mode ks] obtain m where
    m: "keyword_mask mode ?ds ks = Inr m" "length m = length ?ds"
    "make_mask ?h1 (length h) (length ?ds) ks mode = (Inr (length ?h1), ?h1 @ [BoolSeries m])"
    by blast
  let ?h2 = "?h1 @ [BoolSeries m]"
  have f2: "frame_at ?h2 c = Inr df"
    using assms(1) by (simp add: frame_at_append)
  have b2: "bools_at ?h2 (length ?h1) = Inr m" by (rule bools_at_last)
  have run: "run_filter na h c desc retain ks mode =
             project_and_export ?h2 c (length ?h1) retain"
    using assms m(3) by (simp add: run_filter_def alloc_def n)
  show ?thesis
    using m(1,2) unfolding run project_and_export_result [OF f2 b2] column_mask_def
    by (auto split: sum.splits)
qed

lemma filter_stories_cases:
  assumes run: "filter_stories na h c desc retain text mode = (res, h')"
  shows "(\<exists>msg. res = Halted msg \<and> h' = h) \<or>
         (\<exists>e new. res = Raised e \<and> h' = h @ new) \<or>
         (\<exists>df col m sel.
            strip text \<noteq> [] \<and> parse_keywords text \<noteq> [] \<and>
            frame_at h c = Inr df \<and> get_column df desc = Inr col \<and>
            column_mask na mode col (parse_keywords text) = Inr m \<and>
            df_loc df m retain = Inr sel \<and>
            res = Shown (length h + 3) (length h + 4) \<and>
            h' = h @ [TextSeries (map (astype_str na) col), BoolSeries m,
                      Frame sel, Frame sel, Workbook ''FilteredStories'' sel])"
proof (cases "strip text = [] \<or> parse_keywords text = []")
  case True
  with run show ?thesis by (auto simp: filter_stories_def split: if_splits)
next
  case False
  with run have rf: "run_filter na h c desc retain (parse_keywords text) mode = (res, h')"
    by (simp add: filter_stories_def)
  show ?thesis
  proof (cases "frame_at h c")
    case (Inl e)
    with rf show ?thesis by (auto simp: run_filter_def)
  next
    case (Inr df)
    note df = this
    show ?thesis
    proof (cases "get_column df desc")
      case (Inl e)
      with rf df show ?thesis by (auto simp: run_filter_def)
    next
      case (Inr col)
      from run_filter_result [OF df Inr, of na mode "parse_keywords text" retain]
      obtain m where m: "column_mask na mode col (parse_keywords text) = Inr m"
        and r: "run_filter na h c desc retain (parse_keywords text) mode =
             (case df_loc df m retain of
                Inl e \<Rightarrow> (Raised e, h @ [TextSeries (map (astype_str na) col), BoolSeries m])
              | Inr sel \<Rightarrow>
                  (Shown (length h + 3) (length h + 4),
                   h @ [TextSeries (map (astype_str na) col), BoolSeries m,
                        Frame sel, Frame sel, Workbook ''FilteredStories'' sel]))"
        by blast
      show ?thesis
      proof (cases "df_loc df m retain")
        case (Inl e)
        with rf r show ?thesis by auto
      next
        case (Inr sel)
        with rf r have "res = Shown (length h + 3) (length h + 4)"
          "h' = h @ [TextSeries (map (astype_str na) col), BoolSeries m,
                      Frame sel, Frame sel, Workbook ''FilteredStories'' sel]"
          by auto
        with False df \<open>get_column df desc = Inr col\<close> m Inr show ?thesis by blast
      qed
    qed
  qed
qed

text \<open>
  Claim C9. Whatever a run of the filter ends in, the heap it leaves starts with the heap it
  found: every object that existed, the combined table among them, is as it was. When the
  results are shown, \<^verbatim>\<open>filtered\<close> is an object that did not exist before, holding
  the projection of the combined table by the mask; and a second run from the heap left
  behind makes another new object with the same content, and touches neither the first result
  nor the combined table.
\<close>

theorem filter_leaves_combined_table:
  assumes run: "filter_stories na_text h combined_df desc_col retain_cols keyword_text match_mode
                  = (res, h')"
  shows "prefix h h' \<and>
         (combined_df < length h \<longrightarrow> h' ! combined_df = h ! combined_df) \<and>
         (\<forall>filtered out. res = Shown filtered out \<longrightarrow>
            length h \<le> filtered \<and> filtered < length h' \<and>
            (\<exists>df col m sel.
               h ! combined_df = Frame df \<and> get_column df desc_col = Inr col \<and>
               column_mask na_text match_mode col (parse_keywords keyword_text) = Inr m \<and>
               df_loc df m retain_cols = Inr sel \<and> h' ! filtered = Frame sel) \<and>
            (\<exists>filtered2 out2 h2.
               filter_stories na_text h' combined_df desc_col retain_cols keyword_text match_mode
                 = (Shown filtered2 out2, h2) \<and>
               filtered2 \<noteq> filtered \<and> h2 ! filtered2 = h' ! filtered \<and>
               h2 ! filtered = h' ! filtered \<and> h2 ! combined_df = h ! combined_df))"
proof -
  from filter_stories_cases [OF run]
  consider
    (halted) msg where "res = Halted msg" "h' = h"
  | (raised) e new where "res = Raised e" "h' = h @ new"
  | (shown) df col m sel where
      "strip keyword_text \<noteq> []" "parse_keywords keyword_text \<noteq> []"
      "frame_at h combined_df = Inr df" "get_column df desc_col = Inr col"
      "column_mask na_text match_mode col (parse_keywords keyword_text) = Inr m"
      "df_loc df m retain_cols = Inr sel"
      "res = Shown (length h + 3) (length h + 4)"
      "h' = h @ [TextSeries (map (astype_str na_text) col), BoolSeries m,
                 Frame sel, Frame sel, Workbook ''FilteredStories'' sel]"
    by blast
  then show ?thesis
  proof cases
    case halted
    then show ?thesis by simp
  next
    case raised
    then show ?thesis by (simp add: nth_append)
  next
    case shown
    let ?new = "[TextSeries (map (astype_str na_text) col), BoolSeries m,
                 Frame sel, Frame sel, Workbook ''FilteredStories'' sel]"
    have c: "combined_df < length h" "h ! combined_df = Frame df"
      using shown(3) by (auto simp: frame_at_def split: if_splits obj.splits)
    have f': "frame_at h' combined_df = Inr df"
      unfolding shown(8) using shown(3) by (rule frame_at_append)
    from run_filter_result [OF f' shown(4), of na_text match_mode "parse_keywords keyword_text" retain_cols]
    have again: "filter_stories na_text h' combined_df desc_col retain_cols keyword_text match_mode
                 = (Shown (length h' + 3) (length h' + 4), h' @ ?new)"
      using shown(1,2,5,6) by (simp add: filter_stories_def)
    have len: "length h' = length h + 5" by (simp add: shown(8))
    have at: "h' ! (length h + 3) = Frame sel"
      by (simp add: shown(8) nth_append)
    have at2: "(h' @ ?new) ! (length h' + 3) = Frame sel"
      by (simp add: nth_append)
    have keep: "(h' @ ?new) ! (length h + 3) = Frame sel"
      using at len by (simp add: nth_append)
    have keepc: "(h' @ ?new) ! combined_df = h ! combined_df"
      using c(1) by (simp add: shown(8) nth_append)
    have pre: "prefix h h'" by (simp add: shown(8))
    have same: "h' ! combined_df = h ! combined_df"
      using c(1) by (simp add: shown(8) nth_append)
    have fresh: "length h \<le> length h + 3" "length h + 3 < length h'" "length h' + 3 \<noteq> length h + 3"
      using len by simp_all
    have content: "\<exists>df col m sel.
               h ! combined_df = Frame df \<and> get_column df desc_col = Inr col \<and>
               column_mask na_text match_mode col (parse_keywords keyword_text) = Inr m \<and>
               df_loc df m retain_cols = Inr sel \<and> h' ! (length h + 3) = Frame sel"
      using c(2) shown(4,5,6) at by blast
    have rerun: "\<exists>filtered2 out2 h2.
               filter_stories na_text h' combined_df desc_col retain_cols keyword_text match_mode
                 = (Shown filtered2 out2, h2) \<and>
               filtered2 \<noteq> length h + 3 \<and> h2 ! filtered2 = h' ! (length h + 3) \<and>
               h2 ! (length h + 3) = h' ! (length h + 3) \<and> h2 ! combined_df = h ! combined_df"
      using again fresh(3) at at2 keep keepc by metis
    from pre same fresh(1,2) content rerun show ?thesis
      unfolding shown(7) by simp
  qed
qed

text \<open>The statement of C9 on a table of two rows, in the mode ALL.\<close>

theorem filter_leaves_combined_table_witness:
  "filter_stories None [Frame \<lparr>df_columns = [''i'', ''d''], df_rows = [[Text ''1'', Text ''sec''], [Text ''2'', Text ''y'']]\<rparr>]
      0 ''d'' [''i''] ''SE'' All_keywords =
     (Shown 4 5,
      [Frame \<lparr>df_columns = [''i'', ''d''], df_rows = [[Text ''1'', Text ''sec''], [Text ''2'', Text ''y'']]\<rparr>,
       TextSeries [Some ''sec'', Some ''y''], BoolSeries [True, False],
       Frame \<lparr>df_columns = [''i''], df_rows = [[Text ''1'']]\<rparr>,
       Frame \<lparr>df_columns = [''i''], df_rows = [[Text ''1'']]\<rparr>,
       Workbook ''FilteredStories'' \<lparr>df_columns = [''i''], df_rows = [[Text ''1'']]\<rparr>]) \<and>
   prefix [Frame \<lparr>df_columns = [''i'', ''d''], df_rows = [[Text ''1'', Text ''sec''], [Text ''2'', Text ''y'']]\<rparr>]
      [Frame \<lparr>df_columns = [''i'', ''d''], df_rows = [[Text ''1'', Text ''sec''], [Text ''2'', Text ''y'']]\<rparr>,
       TextSeries [Some ''sec'', Some ''y''], BoolSeries [True, False],
       Frame \<lparr>df_columns = [''i''], df_rows = [[Text ''1'']]\<rparr>,
       Frame \<lparr>df_columns = [''i''], df_rows = [[Text ''1'']]\<rparr>,
       Workbook ''FilteredStories'' \<lparr>df_columns = [''i''], df_rows = [[Text ''1'']]\<rparr>]"
proof -
  have ev: "filter_stories None [Frame \<lparr>df_columns = [''i'', ''d''], df_rows = [[Text ''1'', Text ''sec''], [Text ''2'', Text ''y'']]\<rparr>]
      0 ''d'' [''i''] ''SE'' All_keywords =
     (Shown 4 5,
      [Frame \<lparr>df_columns = [''i'', ''d''], df_rows = [[Text ''1'', Text ''sec''], [Text ''2'', Text ''y'']]\<rparr>,
       TextSeries [Some ''sec'', Some ''y''], BoolSeries [True, False],
       Frame \<lparr>df_columns = [''i''], df_rows = [[Text ''1'']]\<rparr>,
       Frame \<lparr>df_columns = [''i''], df_rows = [[Text ''1'']]\<rparr>,
       Workbook ''FilteredStories'' \<lparr>df_columns = [''i''], df_rows = [[Text ''1'']]\<rparr>])"
    by (simp add: filter_stories_def parse_keywords_def strip_def is_space_def run_filter_def
        frame_at_def get_column_def cell_at_def alloc_def make_mask_def texts_at_def
        bools_at_def str_contains_def re_escape_def re_special_def backslash_def
        match_here_def series_and_def is_upper_def project_and_export_def df_loc_def)
  from filter_leaves_combined_table [OF ev] ev show ?thesis
    by blast
qed

end
